theory Spec2Isabelle
  imports Main "HOL-Library.Monad_Syntax"
begin

section \<open>Slot storage (\<^verbatim>\<open>ml/details/lazy_storage.hpp\<close>)\<close>

text \<open>
  \<^verbatim>\<open>union lazy_storage { ValueT m_value; }\<close> holds the bytes of one element and no tag.
  The model makes the lifetime of \<^verbatim>\<open>m_value\<close> explicit: a slot is \<open>Uninit\<close> (built by
  \<^verbatim>\<open>lazy_storage (Uninit)\<close>, or after \<^verbatim>\<open>destroy ()\<close>) or \<open>Live x\<close> (after a successful
  \<^verbatim>\<open>construct (args...)\<close>).
\<close>

datatype 'a lazy_storage = Uninit | Live 'a

fun is_live :: "'a lazy_storage \<Rightarrow> bool" where
  "is_live Uninit = False"
| "is_live (Live x) = True"

text \<open>
  The outcome of running \<^verbatim>\<open>value_type\<close>'s constructor on the forwarded arguments: the
  built value, or an exception.
\<close>

datatype 'a construction = Value 'a | Ctor_throws

text \<open>
  The exceptions of the library: \<^verbatim>\<open>std::logic_error\<close> (thrown by \<^verbatim>\<open>emplace_back\<close> on a
  full container), \<^verbatim>\<open>std::out_of_range\<close> (thrown by \<^verbatim>\<open>at\<close>), and whatever the element
  type's constructor throws.
\<close>

datatype error = Logic_error | Out_of_range | Element_exception

datatype 'r outcome = Returns 'r | Throws error

text \<open>
  \<^verbatim>\<open>construct\<close> is \<^verbatim>\<open>std::ranges::construct_at (data (), args...)\<close>: when the constructor
  throws, no object was created and the slot is as before.

  \<^verbatim>\<open>destroy\<close> is \<^verbatim>\<open>std::ranges::destroy_at (data ())\<close>: it runs the destructor of the
  value and ends its lifetime. On a slot that holds no object there is no value to
  destroy and the behaviour of the call is undefined (the destructor runs on bytes that
  were never constructed): the model returns \<open>None\<close>. The model is of the general case, a
  \<^verbatim>\<open>value_type\<close> that has a destructor to run; for a trivially destructible one the
  body of \<^verbatim>\<open>destroy\<close> is compiled away.
\<close>

fun construct :: "'a construction \<Rightarrow> 'a lazy_storage \<Rightarrow> unit outcome \<times> 'a lazy_storage" where
  "construct (Value x) s = (Returns (), Live x)"
| "construct Ctor_throws s = (Throws Element_exception, s)"

fun destroy :: "'a lazy_storage \<Rightarrow> 'a lazy_storage option" where
  "destroy (Live x) = Some Uninit"
| "destroy Uninit = None"

section \<open>Iterator (\<^verbatim>\<open>ml/details/storage_iterator.hpp\<close>)\<close>

text \<open>
  \<^verbatim>\<open>StorageType* m_ptr\<close> is modelled by its offset, in slots, from the first slot of the
  array it points into; pointer arithmetic is integer arithmetic on the offset.
\<close>

record storage_iterator =
  m_ptr :: int

text \<open>
  The mutating operators return the new state of \<^verbatim>\<open>*this\<close> first and the returned
  iterator second.
\<close>

definition operator_pre_inc :: "storage_iterator \<Rightarrow> storage_iterator \<times> storage_iterator" where
  "operator_pre_inc this = (let this' = this\<lparr>m_ptr := m_ptr this + 1\<rparr> in (this', this'))"

definition operator_post_inc :: "storage_iterator \<Rightarrow> storage_iterator \<times> storage_iterator" where
  "operator_post_inc this =
     (let copy = this;
          this' = fst (operator_pre_inc this)
      in (this', copy))"

definition operator_pre_dec :: "storage_iterator \<Rightarrow> storage_iterator \<times> storage_iterator" where
  "operator_pre_dec this = (let this' = this\<lparr>m_ptr := m_ptr this - 1\<rparr> in (this', this'))"

definition operator_post_dec :: "storage_iterator \<Rightarrow> storage_iterator \<times> storage_iterator" where
  "operator_post_dec this =
     (let copy = this;
          this' = fst (operator_pre_dec this)
      in (this', this'))"

definition operator_plus :: "storage_iterator \<Rightarrow> int \<Rightarrow> storage_iterator" where
  "operator_plus iter delta = iter\<lparr>m_ptr := m_ptr iter + delta\<rparr>"

definition operator_minus :: "storage_iterator \<Rightarrow> int \<Rightarrow> storage_iterator" where
  "operator_minus iter delta = iter\<lparr>m_ptr := m_ptr iter - delta\<rparr>"

definition operator_diff :: "storage_iterator \<Rightarrow> storage_iterator \<Rightarrow> int" where
  "operator_diff lhs rhs = m_ptr lhs - m_ptr rhs"

section \<open>Container (\<^verbatim>\<open>ml/static_vector/static_vector.hpp\<close>)\<close>

text \<open>
  \<^verbatim>\<open>std::size_t m_size\<close> and \<^verbatim>\<open>storage_type m_storage[StaticSize]\<close>. The template parameter
  \<^verbatim>\<open>StaticSize\<close> is the length of \<open>m_storage\<close>. \<open>m_size\<close> is a natural number; the one
  place where the source's unsigned arithmetic wraps (\<^verbatim>\<open>size () - 1\<close> in \<^verbatim>\<open>back\<close>) has the
  wrap written out.

  \<open>slot_calls\<close> is not a member of the class. It is the history of the calls the
  container has made to \<^verbatim>\<open>construct\<close> and \<^verbatim>\<open>destroy\<close> of its slots, newest last, each
  with the index of the slot and whether the slot was live when the call was made.

  \<open>undefined_behaviour\<close> is not a member either. It is set when the container does
  something whose behaviour the language does not define: \<^verbatim>\<open>destroy ()\<close> of a slot that
  holds no object, or leaving \<^verbatim>\<open>erase\<close> without a \<^verbatim>\<open>return\<close> statement. It is never
  reset. Once it is set, the other fields and the outcome of the call say what the
  code's statements would do next, and nothing is claimed from them about the program.
\<close>

datatype slot_call = Construct_call nat bool | Destroy_call nat bool

record 'a static_vector =
  m_size :: nat
  m_storage :: "'a lazy_storage list"
  slot_calls :: "slot_call list"
  undefined_behaviour :: bool

definition construct_slot ::
  "nat \<Rightarrow> 'a construction \<Rightarrow> 'a static_vector \<Rightarrow> unit outcome \<times> 'a static_vector" where
  "construct_slot i c v =
     (let s = m_storage v ! i;
          (r, s') = construct c s
      in (r, v\<lparr>m_storage := (m_storage v)[i := s'],
                slot_calls := slot_calls v @ [Construct_call i (is_live s)]\<rparr>))"

definition destroy_slot :: "nat \<Rightarrow> 'a static_vector \<Rightarrow> 'a static_vector" where
  "destroy_slot i v =
     (let s = m_storage v ! i;
          v1 = v\<lparr>slot_calls := slot_calls v @ [Destroy_call i (is_live s)]\<rparr>
      in case destroy s of
           Some s' \<Rightarrow> v1\<lparr>m_storage := (m_storage v)[i := s']\<rparr>
         | None \<Rightarrow> v1\<lparr>undefined_behaviour := True\<rparr>)"

subsection \<open>Size inspection and iterator access\<close>

definition size_sv :: "'a static_vector \<Rightarrow> nat" where
  "size_sv v = m_size v"

definition max_size :: "'a static_vector \<Rightarrow> nat" where
  "max_size v = length (m_storage v)"

definition capacity :: "'a static_vector \<Rightarrow> nat" where
  "capacity v = length (m_storage v)"

definition empty_sv :: "'a static_vector \<Rightarrow> bool" where
  "empty_sv v = (size_sv v = 0)"

definition full :: "'a static_vector \<Rightarrow> bool" where
  "full v = (size_sv v = max_size v)"

definition begin_sv :: "'a static_vector \<Rightarrow> storage_iterator" where
  "begin_sv v = \<lparr>m_ptr = 0\<rparr>"

definition end_sv :: "'a static_vector \<Rightarrow> storage_iterator" where
  "end_sv v = \<lparr>m_ptr = int (size_sv v)\<rparr>"

definition index_of :: "'a static_vector \<Rightarrow> storage_iterator \<Rightarrow> nat" where
  "index_of v pos = nat (operator_diff pos (begin_sv v))"

subsection \<open>Single element modifiers\<close>

definition pop_back :: "'a static_vector \<Rightarrow> 'a static_vector" where
  "pop_back v =
     (if \<not> empty_sv v then
        (let v1 = v\<lparr>m_size := m_size v - 1\<rparr>
         in destroy_slot (m_size v1) v1)
      else v)"

text \<open>\<^verbatim>\<open>emplace_back\<close> returns a reference to the new element: here, the slot's index.\<close>

definition emplace_back :: "'a construction \<Rightarrow> 'a static_vector \<Rightarrow> nat outcome \<times> 'a static_vector" where
  "emplace_back c v =
     (if full v then (Throws Logic_error, v)
      else
        (let v1 = v\<lparr>m_size := m_size v + 1\<rparr>
         in case construct_slot (m_size v1 - 1) c v1 of
              (Returns u, v2) \<Rightarrow> (Returns (m_size v1 - 1), v2)
            | (Throws e, v2) \<Rightarrow> (Throws e, pop_back v2)))"

definition push_back :: "'a construction \<Rightarrow> 'a static_vector \<Rightarrow> nat outcome \<times> 'a static_vector" where
  "push_back init v = emplace_back init v"

subsection \<open>Shrinking\<close>

text \<open>
  \<^verbatim>\<open>while (std::cmp_less (0, count) && !empty ()) { --count; pop_back (); }\<close>.
  \<^verbatim>\<open>std::cmp_less\<close> compares the mathematical values, so \<open>count\<close> is an \<open>int\<close> whatever
  integral type the caller used.
\<close>

function shrink_by :: "int \<Rightarrow> 'a static_vector \<Rightarrow> 'a static_vector" where
  "shrink_by count v =
     (if 0 < count \<and> \<not> empty_sv v then shrink_by (count - 1) (pop_back v) else v)"
  by pat_completeness auto
termination
  by (relation "measure (\<lambda>(count, v). nat count)") auto

text \<open>
  \<^verbatim>\<open>while (std::cmp_less (count, size ())) pop_back ();\<close>. Nothing in the loop bounds the
  number of iterations, so the model is a partial function: \<open>None\<close> stands for a loop
  that never exits.
\<close>

partial_function (option) shrink_to :: "int \<Rightarrow> 'a static_vector \<Rightarrow> 'a static_vector option" where
  "shrink_to count v =
     (if count < int (size_sv v) then shrink_to count (pop_back v) else Some v)"

definition clear :: "'a static_vector \<Rightarrow> 'a static_vector option" where
  "clear v = shrink_to 0 v"

subsection \<open>Single element access\<close>

text \<open>
  \<^verbatim>\<open>value ()\<close> of a slot returns a reference to \<^verbatim>\<open>m_value\<close>; there is a value to read
  only while the slot is live.
\<close>

fun value_of :: "'a lazy_storage \<Rightarrow> 'a option" where
  "value_of Uninit = None"
| "value_of (Live x) = Some x"

text \<open>
  \<^verbatim>\<open>at\<close> takes any integral type; \<^verbatim>\<open>std::cmp_less\<close> and \<^verbatim>\<open>std::cmp_less_equal\<close> compare
  mathematical values, so the index is an \<open>int\<close>. The accessors assign no member of the
  container, so they return an outcome only.
\<close>

definition at :: "int \<Rightarrow> 'a static_vector \<Rightarrow> 'a option outcome" where
  "at index v =
     (if index < 0 \<or> int (size_sv v) \<le> index then Throws Out_of_range
      else Returns (value_of (m_storage v ! nat index)))"

definition subscript :: "int \<Rightarrow> 'a static_vector \<Rightarrow> 'a option outcome" where
  "subscript index v = at index v"

definition front :: "'a static_vector \<Rightarrow> 'a option outcome" where
  "front v = at 0 v"

text \<open>\<^verbatim>\<open>at (size () - 1)\<close>: the subtraction is on \<^verbatim>\<open>std::size_t\<close> and wraps at zero.\<close>

definition back_sv :: "'a static_vector \<Rightarrow> 'a option outcome" where
  "back_sv v = at (int ((size_sv v + 2 ^ 64 - 1) mod 2 ^ 64)) v"

subsection \<open>The standard algorithms the container calls\<close>

text \<open>
  \<^verbatim>\<open>std::ranges::move (first, last, result)\<close>, on slot indices:
  \<^verbatim>\<open>for (; first != last; ++first, ++result) *result = std::move (*first);\<close>.
  Move assignment gives the target the source's value and leaves the source holding
  \<open>mf x\<close>, the moved-from state of the element type (the identity for \<^verbatim>\<open>int\<close>, the
  empty string for \<^verbatim>\<open>std::string\<close>). A range with \<open>last < first\<close> is not a valid range.
\<close>

fun moved_from :: "('a \<Rightarrow> 'a) \<Rightarrow> 'a lazy_storage \<Rightarrow> 'a lazy_storage" where
  "moved_from mf Uninit = Uninit"
| "moved_from mf (Live x) = Live (mf x)"

function ranges_move ::
  "('a \<Rightarrow> 'a) \<Rightarrow> nat \<Rightarrow> nat \<Rightarrow> nat \<Rightarrow> 'a lazy_storage list \<Rightarrow> 'a lazy_storage list" where
  "ranges_move mf first last' result xs =
     (if first < last' then
        ranges_move mf (Suc first) last' (Suc result)
          ((xs[result := xs ! first])[first := moved_from mf (xs ! first)])
      else xs)"
  by pat_completeness auto
termination
  by (relation "measure (\<lambda>(mf, first, last', result, xs). last' - first)") auto

text \<open>
  \<^verbatim>\<open>std::ranges::rotate (first, middle, last)\<close>: the elements of \<open>[middle, last)\<close> come
  first, followed by those of \<open>[first, middle)\<close>; it exchanges values by swapping and
  neither constructs nor destroys a slot.
\<close>

definition ranges_rotate :: "nat \<Rightarrow> nat \<Rightarrow> nat \<Rightarrow> 'b list \<Rightarrow> 'b list" where
  "ranges_rotate first middle last' xs =
     take first xs @ drop middle (take last' xs) @ drop first (take middle xs) @ drop last' xs"

subsection \<open>Insert and erase of one element\<close>

definition insert_sv ::
  "storage_iterator \<Rightarrow> 'a construction \<Rightarrow> 'a static_vector
     \<Rightarrow> storage_iterator outcome \<times> 'a static_vector" where
  "insert_sv pos init v =
     (case emplace_back init v of
        (Throws e, v1) \<Rightarrow> (Throws e, v1)
      | (Returns r, v1) \<Rightarrow>
          (Returns pos,
           v1\<lparr>m_storage :=
                ranges_rotate (index_of v1 pos) (index_of v1 (operator_minus (end_sv v1) 1))
                  (index_of v1 (end_sv v1)) (m_storage v1)\<rparr>))"

text \<open>
  \<^verbatim>\<open>erase (iterator pos)\<close> has one \<^verbatim>\<open>return\<close> statement, inside the \<^verbatim>\<open>if\<close>. The first
  component of the result is \<open>Some\<close> of the returned iterator, or \<open>None\<close> when control
  reaches the end of the body without a \<^verbatim>\<open>return\<close>.
\<close>

definition erase ::
  "('a \<Rightarrow> 'a) \<Rightarrow> storage_iterator \<Rightarrow> 'a static_vector
     \<Rightarrow> storage_iterator option \<times> 'a static_vector" where
  "erase mf pos v =
     (if pos \<noteq> end_sv v then
        (let v1 = v\<lparr>m_storage :=
                      ranges_move mf (index_of v (operator_plus pos 1)) (index_of v (end_sv v))
                        (index_of v pos) (m_storage v)\<rparr>;
             v2 = pop_back v1
         in (Some pos, v2))
      else (None, v))"

subsection \<open>Bulk append\<close>

text \<open>
  The loop of \<^verbatim>\<open>emplace_back_many\<close>:
  \<^verbatim>\<open>for (size_type i = 0; std::cmp_less (i, count); ++i) emplace_back (args...);\<close>.
  \<open>args i\<close> is the outcome of the construction made in iteration \<open>i\<close>. An exception
  leaves the loop.
\<close>

function emplace_back_loop ::
  "(nat \<Rightarrow> 'a construction) \<Rightarrow> nat \<Rightarrow> int \<Rightarrow> 'a static_vector
     \<Rightarrow> unit outcome \<times> 'a static_vector" where
  "emplace_back_loop args i count v =
     (if int i < count then
        (case emplace_back (args i) v of
           (Throws e, v1) \<Rightarrow> (Throws e, v1)
         | (Returns r, v1) \<Rightarrow> emplace_back_loop args (Suc i) count v1)
      else (Returns (), v))"
  by pat_completeness auto
termination
  by (relation "measure (\<lambda>(args, i, count, v). nat (count - int i))") auto

definition emplace_back_many ::
  "int \<Rightarrow> (nat \<Rightarrow> 'a construction) \<Rightarrow> 'a static_vector
     \<Rightarrow> (unit outcome \<times> 'a static_vector) option" where
  "emplace_back_many count args v =
     (let previous_size = size_sv v
      in case emplace_back_loop args 0 count v of
           (Throws e, v1) \<Rightarrow> do { v2 \<leftarrow> shrink_to (int previous_size) v1; Some (Throws e, v2) }
         | (Returns u, v1) \<Rightarrow> Some (Returns (), v1))"

text \<open>
  \<^verbatim>\<open>for (; first != last; ++first) emplace_back (*first);\<close> over a range given as the
  list of the outcomes of constructing an element from each \<^verbatim>\<open>*first\<close>. The fold
  expression \<^verbatim>\<open>(emplace_back (std::forward<Args> (args)), ...)\<close> of the variadic
  constructors is the same loop over the argument pack.
\<close>

fun emplace_back_each ::
  "'a construction list \<Rightarrow> 'a static_vector \<Rightarrow> unit outcome \<times> 'a static_vector" where
  "emplace_back_each [] v = (Returns (), v)"
| "emplace_back_each (c # cs) v =
     (case emplace_back c v of
        (Throws e, v1) \<Rightarrow> (Throws e, v1)
      | (Returns r, v1) \<Rightarrow> emplace_back_each cs v1)"

definition emplace_back_range ::
  "'a construction list \<Rightarrow> 'a static_vector \<Rightarrow> (nat outcome \<times> 'a static_vector) option" where
  "emplace_back_range rng v =
     (let previous_size = size_sv v
      in case emplace_back_each rng v of
           (Throws e, v1) \<Rightarrow> do { v2 \<leftarrow> shrink_to (int previous_size) v1; Some (Throws e, v2) }
         | (Returns u, v1) \<Rightarrow> Some (Returns (size_sv v1 - previous_size), v1))"

subsection \<open>Resize\<close>

definition resize ::
  "int \<Rightarrow> (nat \<Rightarrow> 'a construction) \<Rightarrow> 'a static_vector
     \<Rightarrow> (unit outcome \<times> 'a static_vector) option" where
  "resize count args v =
     (if count \<le> int (size_sv v) then do { v1 \<leftarrow> shrink_to count v; Some (Returns (), v1) }
      else emplace_back_many count args v)"

text \<open>
  The two-argument form: \<^verbatim>\<open>static_cast<size_type> (count) - size ()\<close> is computed where
  \<open>size () < count\<close>, so neither the cast nor the subtraction wraps.
\<close>

definition resize_init ::
  "int \<Rightarrow> (nat \<Rightarrow> 'a construction) \<Rightarrow> 'a static_vector
     \<Rightarrow> (unit outcome \<times> 'a static_vector) option" where
  "resize_init count init v =
     (if count \<le> int (size_sv v) then do { v1 \<leftarrow> shrink_to count v; Some (Returns (), v1) }
      else emplace_back_many (int (nat count - size_sv v)) init v)"

subsection \<open>Erase and insert of several elements\<close>

definition erase_range ::
  "('a \<Rightarrow> 'a) \<Rightarrow> storage_iterator \<Rightarrow> storage_iterator \<Rightarrow> 'a static_vector
     \<Rightarrow> storage_iterator \<times> 'a static_vector" where
  "erase_range mf first last' v =
     (let v1 = v\<lparr>m_storage :=
                   ranges_move mf (index_of v last') (index_of v (end_sv v))
                     (index_of v first) (m_storage v)\<rparr>;
          v2 = shrink_by (operator_diff last' first) v1
      in (first, v2))"

definition insert_many ::
  "storage_iterator \<Rightarrow> int \<Rightarrow> (nat \<Rightarrow> 'a construction) \<Rightarrow> 'a static_vector
     \<Rightarrow> (storage_iterator outcome \<times> 'a static_vector) option" where
  "insert_many pos count init v =
     do {
       (r, v1) \<leftarrow> emplace_back_many count init v;
       case r of
         Throws e \<Rightarrow> Some (Throws e, v1)
       | Returns u \<Rightarrow>
           Some (Returns pos,
                 v1\<lparr>m_storage :=
                      ranges_rotate (index_of v1 pos)
                        (index_of v1 (operator_minus (end_sv v1) count))
                        (index_of v1 (end_sv v1)) (m_storage v1)\<rparr>)
     }"

definition insert_range ::
  "storage_iterator \<Rightarrow> 'a construction list \<Rightarrow> 'a static_vector
     \<Rightarrow> (storage_iterator outcome \<times> 'a static_vector) option" where
  "insert_range pos rng v =
     do {
       (r, v1) \<leftarrow> emplace_back_range rng v;
       case r of
         Throws e \<Rightarrow> Some (Throws e, v1)
       | Returns inserted \<Rightarrow>
           Some (Returns pos,
                 v1\<lparr>m_storage :=
                      ranges_rotate (index_of v1 pos)
                        (index_of v1 (operator_minus (end_sv v1) (int inserted)))
                        (index_of v1 (end_sv v1)) (m_storage v1)\<rparr>)
     }"

subsection \<open>Constructors\<close>

text \<open>
  Every constructor takes \<open>N\<close>, the template parameter \<^verbatim>\<open>StaticSize\<close>, and starts from
  the default member initialisers: \<^verbatim>\<open>m_size {}\<close> and \<open>N\<close> slots built by
  \<^verbatim>\<open>lazy_storage (Uninit)\<close>.
\<close>

definition static_vector_default :: "nat \<Rightarrow> 'a static_vector" where
  "static_vector_default N =
     \<lparr>m_size = 0, m_storage = replicate N Uninit, slot_calls = [],
      undefined_behaviour = False\<rparr>"

text \<open>Constructors (2/8) and (3/8): the body is one call of \<^verbatim>\<open>emplace_back_many\<close>.\<close>

definition static_vector_count ::
  "nat \<Rightarrow> int \<Rightarrow> (nat \<Rightarrow> 'a construction) \<Rightarrow> (unit outcome \<times> 'a static_vector) option" where
  "static_vector_count N count args = emplace_back_many count args (static_vector_default N)"

definition static_vector_count_init ::
  "nat \<Rightarrow> int \<Rightarrow> (nat \<Rightarrow> 'a construction) \<Rightarrow> (unit outcome \<times> 'a static_vector) option" where
  "static_vector_count_init N count init = emplace_back_many count init (static_vector_default N)"

text \<open>
  Constructor (6/8), from an iterator and a sentinel; (7/8), (8/8) and the copy and move
  constructors delegate to it. Constructor (4/8), in the branch that has the
  \<^verbatim>\<open>try\<close> block, is the same code over its argument pack.
\<close>

definition static_vector_range ::
  "nat \<Rightarrow> 'a construction list \<Rightarrow> (unit outcome \<times> 'a static_vector) option" where
  "static_vector_range N rng =
     (case emplace_back_each rng (static_vector_default N) of
        (Throws e, v1) \<Rightarrow> do { v2 \<leftarrow> clear v1; Some (Throws e, v2) }
      | (Returns u, v1) \<Rightarrow> Some (Returns (), v1))"

text \<open>Constructor (5/8): the arguments, then default-constructed elements up to \<open>count\<close>.\<close>

definition static_vector_count_in_place ::
  "nat \<Rightarrow> int \<Rightarrow> 'a construction list \<Rightarrow> (nat \<Rightarrow> 'a construction)
     \<Rightarrow> (unit outcome \<times> 'a static_vector) option" where
  "static_vector_count_in_place N count args dflt =
     (case emplace_back_each args (static_vector_default N) of
        (Throws e, v1) \<Rightarrow> do { v2 \<leftarrow> clear v1; Some (Throws e, v2) }
      | (Returns u, v1) \<Rightarrow>
          (if int (length args) < count then
             do {
               (r, v2) \<leftarrow> emplace_back_many (int (nat count - length args)) dflt v1;
               case r of
                 Throws e \<Rightarrow> do { v3 \<leftarrow> clear v2; Some (Throws e, v3) }
               | Returns u \<Rightarrow> Some (Returns (), v2)
             }
           else Some (Returns (), v1)))"

subsection \<open>Move assignment\<close>

text \<open>
  \<open>other\<close> is the sequence of the live elements of the right-hand side, and \<open>mc x\<close> the
  outcome of move-constructing an element from \<open>x\<close>. \<^verbatim>\<open>std::ranges::move\<close> into
  \<^verbatim>\<open>begin ()\<close> assigns the leading slots of \<^verbatim>\<open>*this\<close>. The first branch of copy
  assignment is the same code with copies in place of moves.
\<close>

definition operator_assign ::
  "('a \<Rightarrow> 'a construction) \<Rightarrow> 'a list \<Rightarrow> 'a static_vector
     \<Rightarrow> (unit outcome \<times> 'a static_vector) option" where
  "operator_assign mc other v =
     (if size_sv v \<le> length other then
        (let v1 = v\<lparr>m_storage :=
                      map Live (take (size_sv v) other) @ drop (size_sv v) (m_storage v)\<rparr>
         in do {
              (r, v2) \<leftarrow> emplace_back_range (map mc (drop (size_sv v) other)) v1;
              Some (case r of Throws e \<Rightarrow> Throws e | Returns n \<Rightarrow> Returns (), v2)
            })
      else
        (let v1 = v\<lparr>m_storage := map Live other @ drop (length other) (m_storage v)\<rparr>
         in do { v2 \<leftarrow> shrink_to (int (length other)) v1; Some (Returns (), v2) }))"

subsection \<open>Comparison\<close>

text \<open>\<^verbatim>\<open>std::ranges::equal (lhs, rhs)\<close>: the two element sequences \<open>[begin, end)\<close>.\<close>

definition elements :: "'a static_vector \<Rightarrow> 'a option list" where
  "elements v = map value_of (take (size_sv v) (m_storage v))"

definition operator_eq :: "'a static_vector \<Rightarrow> 'a static_vector \<Rightarrow> bool" where
  "operator_eq lhs rhs = (elements lhs = elements rhs)"

section \<open>The container invariant and the reachable states\<close>

text \<open>
  The size is at most the capacity, and the live slots are exactly those below the size.
\<close>

definition valid_sv :: "'a static_vector \<Rightarrow> bool" where
  "valid_sv v =
     (m_size v \<le> length (m_storage v) \<and>
      map is_live (m_storage v) =
        replicate (m_size v) True @ replicate (length (m_storage v) - m_size v) False)"

text \<open>A call respects the slot protocol: \<^verbatim>\<open>construct\<close> on a dead slot, \<^verbatim>\<open>destroy\<close> on a live one.\<close>

fun call_ok :: "slot_call \<Rightarrow> bool" where
  "call_ok (Construct_call i live) = (\<not> live)"
| "call_ok (Destroy_call i live) = live"

text \<open>The modifiers of the public interface, and the constructor calls.\<close>

datatype 'a operation =
    Emplace_back "'a construction"
  | Push_back "'a construction"
  | Pop_back
  | Insert storage_iterator "'a construction"
  | Erase storage_iterator
  | Clear
  | Shrink_by int
  | Shrink_to int
  | Resize int "nat \<Rightarrow> 'a construction"
  | Resize_init int "nat \<Rightarrow> 'a construction"
  | Erase_range storage_iterator storage_iterator
  | Insert_many storage_iterator int "nat \<Rightarrow> 'a construction"
  | Insert_range storage_iterator "'a construction list"
  | Emplace_back_many int "nat \<Rightarrow> 'a construction"
  | Emplace_back_range "'a construction list"
  | Assign "'a \<Rightarrow> 'a construction" "'a list"

datatype 'a constructor_call =
    Default
  | Count int "nat \<Rightarrow> 'a construction"
  | Count_init int "nat \<Rightarrow> 'a construction"
  | Range "'a construction list"
  | Count_in_place int "'a construction list" "nat \<Rightarrow> 'a construction"

fun thrown :: "'r outcome \<Rightarrow> error option" where
  "thrown (Returns r) = None"
| "thrown (Throws e) = Some e"

definition forget :: "('r outcome \<times> 'a static_vector) option \<Rightarrow> (error option \<times> 'a static_vector) option" where
  "forget x = map_option (\<lambda>(r, v). (thrown r, v)) x"

text \<open>
  One call of a modifier: the exception that left the call, if any, and the container
  after the call; \<open>None\<close> when the call does not come back. A call of \<^verbatim>\<open>erase\<close> that
  ends without a \<^verbatim>\<open>return\<close> statement has undefined behaviour.
\<close>

primrec apply_op ::
  "('a \<Rightarrow> 'a) \<Rightarrow> 'a operation \<Rightarrow> 'a static_vector \<Rightarrow> (error option \<times> 'a static_vector) option" where
  "apply_op mf (Emplace_back c) v = forget (Some (emplace_back c v))"
| "apply_op mf (Push_back c) v = forget (Some (push_back c v))"
| "apply_op mf Pop_back v = Some (None, pop_back v)"
| "apply_op mf (Insert pos c) v = forget (Some (insert_sv pos c v))"
| "apply_op mf (Erase pos) v =
     (case erase mf pos v of
        (Some it, v') \<Rightarrow> Some (None, v')
      | (None, v') \<Rightarrow> Some (None, v'\<lparr>undefined_behaviour := True\<rparr>))"
| "apply_op mf Clear v = map_option (Pair None) (clear v)"
| "apply_op mf (Shrink_by n) v = Some (None, shrink_by n v)"
| "apply_op mf (Shrink_to n) v = map_option (Pair None) (shrink_to n v)"
| "apply_op mf (Resize n args) v = forget (resize n args v)"
| "apply_op mf (Resize_init n init) v = forget (resize_init n init v)"
| "apply_op mf (Erase_range first last') v = Some (None, snd (erase_range mf first last' v))"
| "apply_op mf (Insert_many pos n init) v = forget (insert_many pos n init v)"
| "apply_op mf (Insert_range pos rng) v = forget (insert_range pos rng v)"
| "apply_op mf (Emplace_back_many n args) v = forget (emplace_back_many n args v)"
| "apply_op mf (Emplace_back_range rng) v = forget (emplace_back_range rng v)"
| "apply_op mf (Assign mc other) v = forget (operator_assign mc other v)"

text \<open>
  What the language requires of the arguments: an iterator argument points into
  \<open>[begin, end]\<close> of the container, an iterator pair is a range, the count of the
  counted \<^verbatim>\<open>insert\<close> is not negative (it is subtracted from \<^verbatim>\<open>end ()\<close>), and the
  right-hand side of an assignment has the same \<^verbatim>\<open>StaticSize\<close>.
\<close>

definition points_into :: "'a static_vector \<Rightarrow> storage_iterator \<Rightarrow> bool" where
  "points_into v pos = (0 \<le> m_ptr pos \<and> m_ptr pos \<le> int (size_sv v))"

primrec op_pre :: "'a static_vector \<Rightarrow> 'a operation \<Rightarrow> bool" where
  "op_pre v (Emplace_back c) = True"
| "op_pre v (Push_back c) = True"
| "op_pre v Pop_back = True"
| "op_pre v (Insert pos c) = points_into v pos"
| "op_pre v (Erase pos) = points_into v pos"
| "op_pre v Clear = True"
| "op_pre v (Shrink_by n) = True"
| "op_pre v (Shrink_to n) = True"
| "op_pre v (Resize n args) = True"
| "op_pre v (Resize_init n init) = True"
| "op_pre v (Erase_range first last') =
     (points_into v first \<and> points_into v last' \<and> m_ptr first \<le> m_ptr last')"
| "op_pre v (Insert_many pos n init) = (points_into v pos \<and> 0 \<le> n)"
| "op_pre v (Insert_range pos rng) = points_into v pos"
| "op_pre v (Emplace_back_many n args) = True"
| "op_pre v (Emplace_back_range rng) = True"
| "op_pre v (Assign mc other) = (length other \<le> capacity v)"

primrec construct_sv ::
  "nat \<Rightarrow> 'a constructor_call \<Rightarrow> (error option \<times> 'a static_vector) option" where
  "construct_sv N Default = Some (None, static_vector_default N)"
| "construct_sv N (Count n args) = forget (static_vector_count N n args)"
| "construct_sv N (Count_init n init) = forget (static_vector_count_init N n init)"
| "construct_sv N (Range rng) = forget (static_vector_range N rng)"
| "construct_sv N (Count_in_place n args dflt) = forget (static_vector_count_in_place N n args dflt)"

text \<open>
  The calls whose target size is negative: \<^verbatim>\<open>shrink_to\<close>, and \<^verbatim>\<open>resize\<close>, which
  forwards a count that is at most the size to \<^verbatim>\<open>shrink_to\<close>.
\<close>

definition negative_target :: "'a operation \<Rightarrow> bool" where
  "negative_target op =
     (case op of
        Shrink_to n \<Rightarrow> n < 0
      | Resize n args \<Rightarrow> n < 0
      | Resize_init n init \<Rightarrow> n < 0
      | _ \<Rightarrow> False)"

text \<open>
  What a run of \<^verbatim>\<open>emplace_back\<close> calls that started in \<open>v\<close> has made of the container:
  the invariant holds, the capacity is the same, and the size has not gone down.
\<close>

definition grown :: "'a static_vector \<Rightarrow> 'a static_vector \<Rightarrow> bool" where
  "grown v v' =
     (valid_sv v' \<and> length (m_storage v') = length (m_storage v) \<and> m_size v \<le> m_size v')"

text \<open>
  The constructions an operation makes all succeed.
\<close>

primrec no_throwing_construction :: "'a operation \<Rightarrow> bool" where
  "no_throwing_construction (Emplace_back c) = (c \<noteq> Ctor_throws)"
| "no_throwing_construction (Push_back c) = (c \<noteq> Ctor_throws)"
| "no_throwing_construction Pop_back = True"
| "no_throwing_construction (Insert pos c) = (c \<noteq> Ctor_throws)"
| "no_throwing_construction (Erase pos) = True"
| "no_throwing_construction Clear = True"
| "no_throwing_construction (Shrink_by n) = True"
| "no_throwing_construction (Shrink_to n) = True"
| "no_throwing_construction (Resize n args) = (\<forall>j. args j \<noteq> Ctor_throws)"
| "no_throwing_construction (Resize_init n init) = (\<forall>j. init j \<noteq> Ctor_throws)"
| "no_throwing_construction (Erase_range first last') = True"
| "no_throwing_construction (Insert_many pos n init) = (\<forall>j. init j \<noteq> Ctor_throws)"
| "no_throwing_construction (Insert_range pos rng) = (Ctor_throws \<notin> set rng)"
| "no_throwing_construction (Emplace_back_many n args) = (\<forall>j. args j \<noteq> Ctor_throws)"
| "no_throwing_construction (Emplace_back_range rng) = (Ctor_throws \<notin> set rng)"
| "no_throwing_construction (Assign mc other) = (Ctor_throws \<notin> mc ` set other)"

primrec no_throwing_constructor :: "'a constructor_call \<Rightarrow> bool" where
  "no_throwing_constructor Default = True"
| "no_throwing_constructor (Count n args) = (\<forall>j. args j \<noteq> Ctor_throws)"
| "no_throwing_constructor (Count_init n init) = (\<forall>j. init j \<noteq> Ctor_throws)"
| "no_throwing_constructor (Range rng) = (Ctor_throws \<notin> set rng)"
| "no_throwing_constructor (Count_in_place n args dflt) =
     (Ctor_throws \<notin> set args \<and> (\<forall>j. dflt j \<noteq> Ctor_throws))"

text \<open>
  The number of elements the container has to hold for the operation to do what it is
  asked: one more for the single element modifiers, \<open>count\<close> or the length of the range
  more for the bulk ones, the target size for \<^verbatim>\<open>resize\<close>, the size of the right-hand side
  for an assignment; the removing operations need no more than is there.
\<close>

primrec needed_size :: "'a static_vector \<Rightarrow> 'a operation \<Rightarrow> int" where
  "needed_size v (Emplace_back c) = int (size_sv v) + 1"
| "needed_size v (Push_back c) = int (size_sv v) + 1"
| "needed_size v Pop_back = int (size_sv v)"
| "needed_size v (Insert pos c) = int (size_sv v) + 1"
| "needed_size v (Erase pos) = int (size_sv v)"
| "needed_size v Clear = int (size_sv v)"
| "needed_size v (Shrink_by n) = int (size_sv v)"
| "needed_size v (Shrink_to n) = int (size_sv v)"
| "needed_size v (Resize n args) = n"
| "needed_size v (Resize_init n init) = n"
| "needed_size v (Erase_range first last') = int (size_sv v)"
| "needed_size v (Insert_many pos n init) = int (size_sv v) + n"
| "needed_size v (Insert_range pos rng) = int (size_sv v) + int (length rng)"
| "needed_size v (Emplace_back_many n args) = int (size_sv v) + n"
| "needed_size v (Emplace_back_range rng) = int (size_sv v) + int (length rng)"
| "needed_size v (Assign mc other) = int (length other)"

primrec constructed_size :: "'a constructor_call \<Rightarrow> int" where
  "constructed_size Default = 0"
| "constructed_size (Count n args) = n"
| "constructed_size (Count_init n init) = n"
| "constructed_size (Range rng) = int (length rng)"
| "constructed_size (Count_in_place n args dflt) = max n (int (length args))"

text \<open>
  The states a caller can observe: the result of a constructor, and the container after
  any call of a modifier on an observable state, whether the call returned or threw.
  What follows undefined behaviour is not an observable state.
\<close>

inductive reachable :: "('a \<Rightarrow> 'a) \<Rightarrow> nat \<Rightarrow> 'a static_vector \<Rightarrow> bool"
  for mf :: "'a \<Rightarrow> 'a" and N :: nat where
  constructed: "construct_sv N c = Some (r, v) \<Longrightarrow> \<not> undefined_behaviour v
     \<Longrightarrow> reachable mf N v"
| modified: "reachable mf N v \<Longrightarrow> op_pre v op \<Longrightarrow> apply_op mf op v = Some (r, v')
     \<Longrightarrow> \<not> undefined_behaviour v' \<Longrightarrow> reachable mf N v'"

section \<open>Basic facts\<close>

declare shrink_by.simps [simp del]
declare ranges_move.simps [simp del]
declare emplace_back_loop.simps [simp del]

lemma not_live_Uninit: "\<not> is_live s \<longleftrightarrow> s = Uninit"
  by (cases s) auto

lemma destroy_slot_fields:
  "m_size (destroy_slot i v) = m_size v"
  "m_storage (destroy_slot i v) = (m_storage v)[i := Uninit]"
  "slot_calls (destroy_slot i v) = slot_calls v @ [Destroy_call i (is_live (m_storage v ! i))]"
  "undefined_behaviour (destroy_slot i v) =
     (undefined_behaviour v \<or> \<not> is_live (m_storage v ! i))"
proof -
  show "m_size (destroy_slot i v) = m_size v"
    by (cases "m_storage v ! i") (simp_all add: destroy_slot_def Let_def)
  show "m_storage (destroy_slot i v) = (m_storage v)[i := Uninit]"
  proof (cases "m_storage v ! i")
    case Uninit
    then have "(m_storage v)[i := Uninit] = m_storage v"
      using list_update_id [of "m_storage v" i] by simp
    then show ?thesis using Uninit by (simp add: destroy_slot_def Let_def)
  next
    case (Live x)
    then show ?thesis by (simp add: destroy_slot_def Let_def)
  qed
  show "slot_calls (destroy_slot i v) = slot_calls v @ [Destroy_call i (is_live (m_storage v ! i))]"
    by (cases "m_storage v ! i") (simp_all add: destroy_slot_def Let_def)
  show "undefined_behaviour (destroy_slot i v) =
      (undefined_behaviour v \<or> \<not> is_live (m_storage v ! i))"
    by (cases "m_storage v ! i") (simp_all add: destroy_slot_def Let_def)
qed

lemma pop_back_size: "m_size (pop_back v) = m_size v - 1"
  by (simp add: pop_back_def destroy_slot_fields empty_sv_def size_sv_def Let_def)

lemma pop_back_undefined:
  "undefined_behaviour (pop_back v) =
     (undefined_behaviour v \<or> (m_size v \<noteq> 0 \<and> \<not> is_live (m_storage v ! (m_size v - 1))))"
  by (simp add: pop_back_def destroy_slot_fields empty_sv_def size_sv_def Let_def)

lemma funpow_pop_back_undefined:
  "undefined_behaviour v \<Longrightarrow> undefined_behaviour ((pop_back ^^ k) v)"
  by (induction k) (simp_all add: pop_back_undefined)

lemma funpow_pop_back_size: "m_size ((pop_back ^^ k) v) = m_size v - k"
  by (induction k) (simp_all add: pop_back_size)

subsection \<open>The two shrinking loops\<close>

lemma shrink_to_returns_nonneg:
  assumes "shrink_to count v = Some v'"
  shows "0 \<le> count"
proof (rule shrink_to.raw_induct[where P = "\<lambda>c w y. 0 \<le> c", OF _ assms])
  fix f :: "int \<Rightarrow> 'a static_vector \<Rightarrow> 'a static_vector option" and c w y
  assume "\<And>c w y. f c w = Some y \<Longrightarrow> 0 \<le> c"
    and "(if c < int (size_sv w) then f c (pop_back w) else Some w) = Some y"
  then show "0 \<le> c"
    by (cases "c < int (size_sv w)") auto
qed

lemma shrink_to_negative: "count < 0 \<Longrightarrow> shrink_to count v = None"
  using shrink_to_returns_nonneg [of count v] by (cases "shrink_to count v") auto

lemma shrink_to_nonneg:
  "0 \<le> count \<Longrightarrow> shrink_to count v = Some ((pop_back ^^ (m_size v - nat count)) v)"
proof (induction "m_size v - nat count" arbitrary: v)
  case 0
  then show ?case by (subst shrink_to.simps) (auto simp: size_sv_def)
next
  case (Suc k)
  then have lt: "count < int (m_size v)" by linarith
  have k: "k = m_size (pop_back v) - nat count" using Suc by (simp add: pop_back_size)
  have "shrink_to count v = shrink_to count (pop_back v)"
    using lt by (subst shrink_to.simps) (simp add: size_sv_def)
  also have "\<dots> = Some ((pop_back ^^ k) (pop_back v))"
    using Suc.hyps(1)[OF k Suc.prems] k by simp
  also have "(pop_back ^^ k) (pop_back v) = (pop_back ^^ Suc k) v"
    by (simp add: funpow_swap1)
  finally show ?case using Suc.hyps(2) by simp
qed

lemma shrink_by_closed:
  "shrink_by count v = (pop_back ^^ (min (nat count) (m_size v))) v"
proof (induction count v rule: shrink_by.induct)
  case (1 count v)
  show ?case
  proof (cases "0 < count \<and> \<not> empty_sv v")
    case True
    then have m: "min (nat count) (m_size v) = Suc (min (nat (count - 1)) (m_size (pop_back v)))"
      by (auto simp: pop_back_size empty_sv_def size_sv_def min_def)
    have "shrink_by count v = shrink_by (count - 1) (pop_back v)"
      using True by (subst shrink_by.simps) simp
    also have "\<dots> = (pop_back ^^ (min (nat (count - 1)) (m_size (pop_back v)))) (pop_back v)"
      using 1 True by simp
    finally show ?thesis unfolding m by (simp add: funpow_swap1)
  next
    case False
    then have "shrink_by count v = v" by (subst shrink_by.simps) auto
    moreover have "min (nat count) (m_size v) = 0"
      using False by (auto simp: empty_sv_def size_sv_def)
    ultimately show ?thesis by simp
  qed
qed

lemma shrink_by_size: "m_size (shrink_by count v) = m_size v - min (nat count) (m_size v)"
  by (simp add: shrink_by_closed funpow_pop_back_size)

lemma shrink_to_nonneg_size:
  "0 \<le> count \<Longrightarrow> \<exists>v'. shrink_to count v = Some v' \<and> m_size v' = min (m_size v) (nat count)"
  by (auto simp: shrink_to_nonneg funpow_pop_back_size)

subsection \<open>The invariant under the single element modifiers\<close>

lemma valid_sv_iff:
  "valid_sv v \<longleftrightarrow>
     m_size v \<le> length (m_storage v) \<and>
     (\<forall>i < length (m_storage v). is_live (m_storage v ! i) \<longleftrightarrow> i < m_size v)"
  unfolding valid_sv_def
  by (auto simp: list_eq_iff_nth_eq nth_append)

lemma valid_live: "valid_sv v \<Longrightarrow> i < m_size v \<Longrightarrow> is_live (m_storage v ! i)"
  by (simp add: valid_sv_iff)

lemma valid_dead:
  "valid_sv v \<Longrightarrow> m_size v \<le> i \<Longrightarrow> i < length (m_storage v) \<Longrightarrow> m_storage v ! i = Uninit"
  using not_live_Uninit by (fastforce simp add: valid_sv_iff)

lemma valid_size_le: "valid_sv v \<Longrightarrow> m_size v \<le> length (m_storage v)"
  by (simp add: valid_sv_iff)

lemma pop_back_storage:
  "m_storage (pop_back v) = (if m_size v = 0 then m_storage v else (m_storage v)[m_size v - 1 := Uninit])"
  by (simp add: pop_back_def destroy_slot_fields empty_sv_def size_sv_def Let_def)

lemma pop_back_length: "length (m_storage (pop_back v)) = length (m_storage v)"
  by (simp add: pop_back_storage)

lemma pop_back_valid:
  assumes v: "valid_sv v"
  shows "valid_sv (pop_back v)"
proof (cases "m_size v = 0")
  case True
  then show ?thesis using v by (simp add: pop_back_def empty_sv_def size_sv_def)
next
  case False
  have "is_live (m_storage (pop_back v) ! i) \<longleftrightarrow> i < m_size v - 1"
    if "i < length (m_storage v)" for i
  proof (cases "i = m_size v - 1")
    case True
    then show ?thesis using that False by (simp add: pop_back_storage)
  next
    case ne: False
    then have "is_live (m_storage (pop_back v) ! i) \<longleftrightarrow> i < m_size v"
      using that v False by (simp add: pop_back_storage valid_sv_iff)
    then show ?thesis using ne by auto
  qed
  moreover have "m_size v - 1 \<le> length (m_storage v)"
    using valid_size_le [OF v] by simp
  ultimately show ?thesis
    by (simp add: valid_sv_iff [of "pop_back v"] pop_back_size pop_back_length)
qed

lemma funpow_pop_back_valid: "valid_sv v \<Longrightarrow> valid_sv ((pop_back ^^ k) v)"
  by (induction k) (simp_all add: pop_back_valid)

lemma pop_back_defined:
  "valid_sv v \<Longrightarrow> undefined_behaviour (pop_back v) = undefined_behaviour v"
  using valid_live [of v "m_size v - 1"] by (auto simp: pop_back_undefined)

lemma funpow_pop_back_defined:
  "valid_sv v \<Longrightarrow> undefined_behaviour ((pop_back ^^ k) v) = undefined_behaviour v"
  by (induction k) (simp_all add: pop_back_defined funpow_pop_back_valid)

lemma funpow_pop_back_length: "length (m_storage ((pop_back ^^ k) v)) = length (m_storage v)"
  by (induction k) (simp_all add: pop_back_length)

lemma emplace_back_full: "full v \<Longrightarrow> emplace_back c v = (Throws Logic_error, v)"
  by (simp add: emplace_back_def)

lemma emplace_back_value:
  "\<not> full v \<Longrightarrow>
   emplace_back (Value x) v =
     (Returns (m_size v),
      v\<lparr>m_size := m_size v + 1,
        m_storage := (m_storage v)[m_size v := Live x],
        slot_calls := slot_calls v @ [Construct_call (m_size v) (is_live (m_storage v ! m_size v))]\<rparr>)"
  by (simp add: emplace_back_def construct_slot_def Let_def)

lemma emplace_back_throws:
  assumes "\<not> full v"
  shows "fst (emplace_back Ctor_throws v) = Throws Element_exception"
    and "m_size (snd (emplace_back Ctor_throws v)) = m_size v"
    and "m_storage (snd (emplace_back Ctor_throws v)) = (m_storage v)[m_size v := Uninit]"
    and "slot_calls (snd (emplace_back Ctor_throws v)) =
           slot_calls v @
             [Construct_call (m_size v) (is_live (m_storage v ! m_size v)),
              Destroy_call (m_size v) (is_live (m_storage v ! m_size v))]"
    and "undefined_behaviour (snd (emplace_back Ctor_throws v)) =
           (undefined_behaviour v \<or> \<not> is_live (m_storage v ! m_size v))"
  using assms
  by (simp_all add: emplace_back_def construct_slot_def pop_back_def destroy_slot_fields
      empty_sv_def size_sv_def Let_def)

lemma emplace_back_length: "length (m_storage (snd (emplace_back c v))) = length (m_storage v)"
  by (cases c; cases "full v") (simp_all add: emplace_back_full emplace_back_value emplace_back_throws)

lemma emplace_back_undefined:
  assumes "valid_sv v"
  shows "undefined_behaviour (snd (emplace_back c v)) =
           (undefined_behaviour v \<or> (\<not> full v \<and> c = Ctor_throws))"
proof (cases "full v")
  case True
  then show ?thesis by (simp add: emplace_back_full)
next
  case False
  then have lt: "m_size v < length (m_storage v)"
    using valid_size_le [OF assms] by (simp add: full_def size_sv_def max_size_def)
  have dead: "m_storage v ! m_size v = Uninit"
    using valid_dead [OF assms _ lt] by simp
  show ?thesis using False dead
    by (cases c) (simp_all add: emplace_back_value emplace_back_throws)
qed

lemma emplace_back_valid:
  assumes "valid_sv v"
  shows "valid_sv (snd (emplace_back c v))"
proof (cases "full v")
  case True
  then show ?thesis using assms by (simp add: emplace_back_full)
next
  case False
  then have lt: "m_size v < length (m_storage v)"
    using valid_size_le [OF assms] by (simp add: full_def size_sv_def max_size_def)
  show ?thesis
  proof (cases c)
    case (Value x)
    then show ?thesis using False assms lt
      by (auto simp: emplace_back_value valid_sv_iff nth_list_update)
  next
    case Ctor_throws
    have "m_storage v ! m_size v = Uninit" using valid_dead [OF assms _ lt] by simp
    then have "(m_storage v)[m_size v := Uninit] = m_storage v"
      using list_update_id [of "m_storage v" "m_size v"] by simp
    then show ?thesis using Ctor_throws False assms
      by (simp add: valid_sv_def emplace_back_throws)
  qed
qed

lemma emplace_back_size:
  "m_size (snd (emplace_back c v)) = (case fst (emplace_back c v) of Returns r \<Rightarrow> m_size v + 1 | Throws e \<Rightarrow> m_size v)"
  by (cases c; cases "full v") (simp_all add: emplace_back_full emplace_back_value emplace_back_throws)

lemma emplace_back_loop_done:
  "\<not> int i < count \<Longrightarrow> emplace_back_loop args i count v = (Returns (), v)"
  by (subst emplace_back_loop.simps) simp

subsection \<open>Moving and rotating slots\<close>

lemma ranges_move_length: "length (ranges_move mf f l r xs) = length xs"
proof (induction mf f l r xs rule: ranges_move.induct)
  case (1 mf f l r xs)
  show ?case
  proof (cases "f < l")
    case True
    then show ?thesis using 1 by (subst ranges_move.simps) simp
  next
    case False
    then show ?thesis by (subst ranges_move.simps) simp
  qed
qed

lemma ranges_move_shift_nth:
  "l \<le> length xs \<Longrightarrow> i < length xs \<Longrightarrow>
   ranges_move mf (Suc r) l r xs ! i =
     (if r \<le> i \<and> Suc i < l then xs ! Suc i
      else if Suc i = l \<and> Suc r < l then moved_from mf (xs ! i)
      else xs ! i)"
proof (induction "l - Suc r" arbitrary: r xs)
  case 0
  then have "\<not> Suc r < l" by simp
  then show ?case by (subst ranges_move.simps) auto
next
  case (Suc k)
  then have lt: "Suc r < l" by simp
  let ?xs' = "(xs[r := xs ! Suc r])[Suc r := moved_from mf (xs ! Suc r)]"
  have k: "k = l - Suc (Suc r)" using Suc.hyps(2) by simp
  have len: "l \<le> length ?xs'" "i < length ?xs'" using Suc.prems by simp_all
  have "ranges_move mf (Suc r) l r xs ! i = ranges_move mf (Suc (Suc r)) l (Suc r) ?xs' ! i"
    using lt by (subst ranges_move.simps) simp
  also have "\<dots> = (if Suc r \<le> i \<and> Suc i < l then ?xs' ! Suc i
      else if Suc i = l \<and> Suc (Suc r) < l then moved_from mf (?xs' ! i)
      else ?xs' ! i)"
    using Suc.hyps(1) [OF k len] .
  also have "\<dots> = (if r \<le> i \<and> Suc i < l then xs ! Suc i
      else if Suc i = l \<and> Suc r < l then moved_from mf (xs ! i)
      else xs ! i)"
    using lt Suc.prems by (auto simp: nth_list_update)
  finally show ?case .
qed

lemma ranges_rotate_length:
  "p \<le> m \<Longrightarrow> m \<le> l \<Longrightarrow> l \<le> length xs \<Longrightarrow> length (ranges_rotate p m l xs) = length xs"
  by (simp add: ranges_rotate_def)

lemma ranges_rotate_last_nth:
  "p \<le> n \<Longrightarrow> n < length ys \<Longrightarrow> i < length ys \<Longrightarrow>
   ranges_rotate p n (Suc n) ys ! i =
     (if i < p then ys ! i else if i = p then ys ! n else if i \<le> n then ys ! (i - 1) else ys ! i)"
  by (auto simp: ranges_rotate_def nth_append min_def take_Suc_conv_app_nth)

subsection \<open>Erasing one element\<close>

lemma index_of_simps:
  "0 \<le> m_ptr pos \<Longrightarrow> index_of v pos = nat (m_ptr pos)"
  "index_of v (end_sv v) = m_size v"
  "index_of v (operator_minus (end_sv v) 1) = m_size v - 1"
  "0 \<le> m_ptr pos \<Longrightarrow> index_of v (operator_plus pos 1) = Suc (nat (m_ptr pos))"
  by (simp_all add: index_of_def operator_diff_def begin_sv_def end_sv_def size_sv_def
      operator_minus_def operator_plus_def nat_diff_distrib Suc_nat_eq_nat_zadd1 add.commute)

lemma erase_before_end:
  assumes v: "valid_sv v" and p0: "0 \<le> m_ptr pos" and pn: "m_ptr pos < int (m_size v)"
  shows "fst (erase mf pos v) = Some pos"
    and "m_size (snd (erase mf pos v)) = m_size v - 1"
    and "m_storage (snd (erase mf pos v)) =
           (ranges_move mf (Suc (nat (m_ptr pos))) (m_size v) (nat (m_ptr pos)) (m_storage v))
             [m_size v - 1 := Uninit]"
    and "slot_calls (snd (erase mf pos v)) = slot_calls v @ [Destroy_call (m_size v - 1) True]"
    and "undefined_behaviour (snd (erase mf pos v)) = undefined_behaviour v"
proof -
  let ?p = "nat (m_ptr pos)"
  let ?n = "m_size v"
  have ne: "pos \<noteq> end_sv v" using pn by (auto simp: end_sv_def size_sv_def)
  have pn': "?p < ?n" using p0 pn by linarith
  have n_le: "?n \<le> length (m_storage v)" using valid_size_le [OF v] .
  let ?ys = "ranges_move mf (Suc ?p) ?n ?p (m_storage v)"
  have last_live: "is_live (?ys ! (?n - 1))"
  proof -
    have i: "?n - 1 < length (m_storage v)" using pn' n_le by simp
    have "?ys ! (?n - 1) =
        (if Suc ?p < ?n then moved_from mf (m_storage v ! (?n - 1)) else m_storage v ! (?n - 1))"
      using ranges_move_shift_nth [OF n_le i, of mf ?p] pn' by auto
    moreover have "is_live (m_storage v ! (?n - 1))" using valid_live [OF v, of "?n - 1"] pn' by simp
    moreover have "is_live (moved_from mf s) = is_live s" for s :: "'a lazy_storage"
      by (cases s) auto
    ultimately show ?thesis by simp
  qed
  have e: "erase mf pos v =
      (Some pos, pop_back (v\<lparr>m_storage := ?ys\<rparr>))"
    using ne p0 by (simp add: erase_def Let_def index_of_simps)
  show "fst (erase mf pos v) = Some pos" by (simp add: e)
  show "m_size (snd (erase mf pos v)) = m_size v - 1" by (simp add: e pop_back_size)
  show "m_storage (snd (erase mf pos v)) = ?ys[m_size v - 1 := Uninit]"
    using pn' by (simp add: e pop_back_storage)
  show "slot_calls (snd (erase mf pos v)) = slot_calls v @ [Destroy_call (m_size v - 1) True]"
    using pn' last_live
    by (simp add: e pop_back_def destroy_slot_fields empty_sv_def size_sv_def Let_def)
  show "undefined_behaviour (snd (erase mf pos v)) = undefined_behaviour v"
    using pn' last_live by (simp add: e pop_back_undefined)
qed

lemma erase_before_end_elements:
  assumes v: "valid_sv v" and p0: "0 \<le> m_ptr pos" and pn: "m_ptr pos < int (m_size v)"
  shows "elements (snd (erase mf pos v)) =
           take (nat (m_ptr pos)) (elements v) @ drop (Suc (nat (m_ptr pos))) (elements v)"
proof -
  let ?p = "nat (m_ptr pos)"
  let ?n = "m_size v"
  have pn': "?p < ?n" using p0 pn by linarith
  have n_le: "?n \<le> length (m_storage v)" using valid_size_le [OF v] .
  note e = erase_before_end [OF v p0 pn, of mf]
  show ?thesis
  proof (rule nth_equalityI)
    show "length (elements (snd (erase mf pos v))) = length (take ?p (elements v) @ drop (Suc ?p) (elements v))"
      using pn' n_le by (simp add: elements_def size_sv_def e ranges_move_length)
  next
    fix i assume "i < length (elements (snd (erase mf pos v)))"
    then have i: "i < ?n - 1"
      using n_le by (simp add: elements_def size_sv_def e ranges_move_length)
    then have il: "i < length (m_storage v)" using n_le by simp
    have "elements (snd (erase mf pos v)) ! i =
        value_of (ranges_move mf (Suc ?p) ?n ?p (m_storage v) ! i)"
      using i n_le by (simp add: elements_def size_sv_def e ranges_move_length)
    also have "\<dots> = value_of (if ?p \<le> i then m_storage v ! Suc i else m_storage v ! i)"
      using ranges_move_shift_nth [OF n_le il, of mf ?p] i by auto
    also have "\<dots> = (take ?p (elements v) @ drop (Suc ?p) (elements v)) ! i"
      using i pn' n_le by (auto simp: elements_def size_sv_def nth_append min_def)
    finally show "elements (snd (erase mf pos v)) ! i =
        (take ?p (elements v) @ drop (Suc ?p) (elements v)) ! i" .
  qed
qed

subsection \<open>Runs of \<^verbatim>\<open>emplace_back\<close> and the bulk append primitives\<close>

lemma emplace_back_cases:
  obtains (full) "full v" "emplace_back c v = (Throws Logic_error, v)"
  | (built) x where "\<not> full v" "c = Value x"
      "fst (emplace_back c v) = Returns (m_size v)"
      "m_size (snd (emplace_back c v)) = Suc (m_size v)"
  | (failed) "\<not> full v" "c = Ctor_throws"
      "fst (emplace_back c v) = Throws Element_exception"
      "m_size (snd (emplace_back c v)) = m_size v"
proof (cases "full v")
  case True
  then show ?thesis using full emplace_back_full by blast
next
  case False
  show ?thesis
  proof (cases c)
    case (Value x)
    then show ?thesis using False built [of x] by (simp add: emplace_back_value)
  next
    case Ctor_throws
    then show ?thesis using False failed by (simp add: emplace_back_throws)
  qed
qed

lemma grown_refl: "valid_sv v \<Longrightarrow> grown v v"
  by (simp add: grown_def)

lemma grown_emplace_back: "grown v v1 \<Longrightarrow> grown v (snd (emplace_back c v1))"
  unfolding grown_def
  by (cases c v1 rule: emplace_back_cases)
     (use emplace_back_valid [of v1 c] emplace_back_length [of c v1] in auto)

lemma emplace_back_each_grown:
  "grown v0 v \<Longrightarrow> grown v0 (snd (emplace_back_each cs v))"
proof (induction cs arbitrary: v)
  case Nil
  then show ?case by simp
next
  case (Cons c cs)
  obtain r v1 where e: "emplace_back c v = (r, v1)" by (cases "emplace_back c v")
  have g: "grown v0 v1" using grown_emplace_back [OF Cons.prems, of c] e by simp
  show ?case
  proof (cases r)
    case (Returns k)
    then show ?thesis using e Cons.IH [OF g] by simp
  next
    case (Throws x)
    then show ?thesis using e g by simp
  qed
qed

lemma emplace_back_each_returns:
  "fst (emplace_back_each cs v) = Returns u \<Longrightarrow>
   m_size (snd (emplace_back_each cs v)) = m_size v + length cs"
proof (induction cs arbitrary: v)
  case Nil
  then show ?case by simp
next
  case (Cons c cs)
  obtain r v1 where e: "emplace_back c v = (r, v1)" by (cases "emplace_back c v")
  show ?case
  proof (cases r)
    case (Returns k)
    then have "m_size v1 = Suc (m_size v)"
      using e by (cases c v rule: emplace_back_cases) auto
    then show ?thesis using Returns e Cons by simp
  next
    case (Throws x)
    then show ?thesis using e Cons.prems by simp
  qed
qed

lemma emplace_back_loop_grown:
  "grown v0 v \<Longrightarrow> grown v0 (snd (emplace_back_loop args i count v))"
proof (induction args i count v rule: emplace_back_loop.induct)
  case (1 args i count v)
  show ?case
  proof (cases "int i < count")
    case False
    then show ?thesis using 1 by (simp add: emplace_back_loop_done)
  next
    case True
    obtain r v1 where e: "emplace_back (args i) v = (r, v1)" by (cases "emplace_back (args i) v")
    have g: "grown v0 v1" using grown_emplace_back [OF "1.prems", of "args i"] e by simp
    show ?thesis
    proof (cases r)
      case (Returns k)
      then show ?thesis
        using True e "1.IH" [OF True e [symmetric] _ g]
        by (subst emplace_back_loop.simps) simp
    next
      case (Throws x)
      then show ?thesis using True e g by (subst emplace_back_loop.simps) simp
    qed
  qed
qed

lemma emplace_back_loop_returns:
  "fst (emplace_back_loop args i count v) = Returns u \<Longrightarrow>
   m_size (snd (emplace_back_loop args i count v)) = m_size v + nat (count - int i)"
proof (induction args i count v rule: emplace_back_loop.induct)
  case (1 args i count v)
  show ?case
  proof (cases "int i < count")
    case False
    then show ?thesis by (simp add: emplace_back_loop_done)
  next
    case True
    obtain r v1 where e: "emplace_back (args i) v = (r, v1)" by (cases "emplace_back (args i) v")
    show ?thesis
    proof (cases r)
      case (Returns k)
      then have s: "m_size v1 = Suc (m_size v)"
        using e by (cases "args i" v rule: emplace_back_cases) auto
      have eq: "emplace_back_loop args i count v = emplace_back_loop args (Suc i) count v1"
        using True e Returns by (subst emplace_back_loop.simps) simp
      have "m_size (snd (emplace_back_loop args (Suc i) count v1)) = m_size v1 + nat (count - int (Suc i))"
        using "1.IH" [OF True e [symmetric] _ ] Returns "1.prems" eq by simp
      then show ?thesis using eq s True by (simp add: nat_diff_distrib)
    next
      case (Throws x)
      then show ?thesis using True e "1.prems" by (subst (asm) emplace_back_loop.simps) simp
    qed
  qed
qed

lemma rollback:
  assumes "grown v v1"
  shows "\<exists>v2. shrink_to (int (m_size v)) v1 = Some v2 \<and> valid_sv v2
            \<and> length (m_storage v2) = length (m_storage v) \<and> m_size v2 = m_size v"
  using assms
  by (simp add: grown_def shrink_to_nonneg funpow_pop_back_valid funpow_pop_back_length
      funpow_pop_back_size)

lemma shrink_to_valid:
  assumes "valid_sv v" and "0 \<le> count"
  shows "\<exists>v2. shrink_to count v = Some v2 \<and> valid_sv v2
            \<and> length (m_storage v2) = length (m_storage v) \<and> m_size v2 = min (m_size v) (nat count)"
  using assms
  by (auto simp: shrink_to_nonneg funpow_pop_back_valid funpow_pop_back_length funpow_pop_back_size)

lemma shrink_by_valid:
  "valid_sv v \<Longrightarrow> valid_sv (shrink_by count v) \<and> length (m_storage (shrink_by count v)) = length (m_storage v)"
  by (simp add: shrink_by_closed funpow_pop_back_valid funpow_pop_back_length)

lemma emplace_back_many_result:
  assumes v: "valid_sv v"
  shows "\<exists>r v'. emplace_back_many count args v = Some (r, v') \<and> valid_sv v'
           \<and> length (m_storage v') = length (m_storage v)
           \<and> (case r of Throws e \<Rightarrow> m_size v' = m_size v
                        | Returns u \<Rightarrow> m_size v' = m_size v + nat count)"
proof -
  obtain r v1 where l: "emplace_back_loop args 0 count v = (r, v1)"
    by (cases "emplace_back_loop args 0 count v")
  have g: "grown v v1" using emplace_back_loop_grown [OF grown_refl [OF v], of args 0 count] l by simp
  show ?thesis
  proof (cases r)
    case (Returns u)
    then have "m_size v1 = m_size v + nat count"
      using emplace_back_loop_returns [of args 0 count v u] l by simp
    then show ?thesis using Returns l g by (simp add: emplace_back_many_def size_sv_def grown_def)
  next
    case (Throws e)
    obtain v2 where "shrink_to (int (m_size v)) v1 = Some v2" "valid_sv v2"
      "length (m_storage v2) = length (m_storage v)" "m_size v2 = m_size v"
      using rollback [OF g] by blast
    then show ?thesis using Throws l by (simp add: emplace_back_many_def size_sv_def)
  qed
qed

lemma emplace_back_range_result:
  assumes v: "valid_sv v"
  shows "\<exists>r v'. emplace_back_range rng v = Some (r, v') \<and> valid_sv v'
           \<and> length (m_storage v') = length (m_storage v)
           \<and> (case r of Throws e \<Rightarrow> m_size v' = m_size v
                        | Returns k \<Rightarrow> k = length rng \<and> m_size v' = m_size v + length rng)"
proof -
  obtain r v1 where l: "emplace_back_each rng v = (r, v1)"
    by (cases "emplace_back_each rng v")
  have g: "grown v v1" using emplace_back_each_grown [OF grown_refl [OF v], of rng] l by simp
  show ?thesis
  proof (cases r)
    case (Returns u)
    then have "m_size v1 = m_size v + length rng"
      using emplace_back_each_returns [of rng v u] l by simp
    then show ?thesis using Returns l g by (simp add: emplace_back_range_def size_sv_def grown_def)
  next
    case (Throws e)
    obtain v2 where "shrink_to (int (m_size v)) v1 = Some v2" "valid_sv v2"
      "length (m_storage v2) = length (m_storage v)" "m_size v2 = m_size v"
      using rollback [OF g] by blast
    then show ?thesis using Throws l by (simp add: emplace_back_range_def size_sv_def)
  qed
qed

lemma valid_same_liveness:
  assumes "valid_sv v" and "map is_live xs = map is_live (m_storage v)"
  shows "valid_sv (v\<lparr>m_storage := xs\<rparr>)" and "length xs = length (m_storage v)"
proof -
  show len: "length xs = length (m_storage v)" using assms(2) map_eq_imp_length_eq by blast
  show "valid_sv (v\<lparr>m_storage := xs\<rparr>)" using assms len by (simp add: valid_sv_def)
qed

lemma ranges_rotate_liveness:
  assumes v: "valid_sv v" and "p \<le> m" and "m \<le> m_size v"
  shows "map is_live (ranges_rotate p m (m_size v) (m_storage v)) = map is_live (m_storage v)"
proof -
  let ?n = "m_size v"
  let ?F = "replicate (length (m_storage v) - ?n) False"
  have n: "?n \<le> length (m_storage v)" using valid_size_le [OF v] .
  have "map is_live (ranges_rotate p m ?n (m_storage v)) = ranges_rotate p m ?n (map is_live (m_storage v))"
    by (simp add: ranges_rotate_def take_map drop_map)
  also have "\<dots> = ranges_rotate p m ?n (replicate ?n True @ ?F)"
    using v by (simp add: valid_sv_def)
  also have "\<dots> = replicate p True @ replicate (?n - m) True @ replicate (m - p) True @ ?F"
    using assms(2,3) by (simp add: ranges_rotate_def min_def)
  also have "\<dots> = replicate (p + (?n - m) + (m - p)) True @ ?F"
    by (simp add: replicate_add)
  also have "p + (?n - m) + (m - p) = ?n" using assms(2,3) by simp
  finally show ?thesis using v by (simp add: valid_sv_def)
qed

lemma is_live_moved_from: "is_live (moved_from mf s) = is_live s"
  by (cases s) auto

lemma ranges_move_liveness:
  "r \<le> f \<Longrightarrow> l \<le> length xs \<Longrightarrow> (\<forall>i. r \<le> i \<and> i < l \<longrightarrow> is_live (xs ! i)) \<Longrightarrow>
   map is_live (ranges_move mf f l r xs) = map is_live xs"
proof (induction mf f l r xs rule: ranges_move.induct)
  case (1 mf f l r xs)
  show ?case
  proof (cases "f < l")
    case False
    then show ?thesis by (subst ranges_move.simps) simp
  next
    case True
    let ?xs' = "(xs[r := xs ! f])[f := moved_from mf (xs ! f)]"
    have same: "map is_live ?xs' = map is_live xs"
    proof (rule nth_equalityI)
      show "length (map is_live ?xs') = length (map is_live xs)" by simp
    next
      fix i assume "i < length (map is_live ?xs')"
      then have i: "i < length xs" by simp
      show "map is_live ?xs' ! i = map is_live xs ! i"
        using i True "1.prems" by (auto simp: nth_list_update is_live_moved_from)
    qed
    have live': "\<forall>i. Suc r \<le> i \<and> i < l \<longrightarrow> is_live (?xs' ! i)"
    proof (intro allI impI)
      fix i assume h: "Suc r \<le> i \<and> i < l"
      then have "i < length xs" using "1.prems" by simp
      then have "is_live (?xs' ! i) = is_live (xs ! i)"
        using same by (metis length_map nth_map)
      then show "is_live (?xs' ! i)" using h "1.prems" by simp
    qed
    have "map is_live (ranges_move mf f l r xs) = map is_live (ranges_move mf (Suc f) l (Suc r) ?xs')"
      using True by (subst ranges_move.simps) simp
    also have "\<dots> = map is_live ?xs'"
      using "1.IH" [OF True _ _ live'] "1.prems" by simp
    finally show ?thesis using same by simp
  qed
qed

lemma ranges_move_valid:
  assumes v: "valid_sv v" and "r \<le> f" and "l \<le> m_size v"
  shows "valid_sv (v\<lparr>m_storage := ranges_move mf f l r (m_storage v)\<rparr>)"
proof -
  have "l \<le> length (m_storage v)" using valid_size_le [OF v] assms(3) by simp
  moreover have "\<forall>i. r \<le> i \<and> i < l \<longrightarrow> is_live (m_storage v ! i)"
    using valid_live [OF v] assms(3) by simp
  ultimately show ?thesis
    using valid_same_liveness(1) [OF v ranges_move_liveness [OF assms(2)]] by blast
qed

subsection \<open>The invariant under each modifier\<close>

lemma emplace_back_kept:
  assumes "valid_sv v" and "emplace_back c v = (r, v')"
  shows "valid_sv v'" and "length (m_storage v') = length (m_storage v)"
    and "thrown r \<noteq> None \<Longrightarrow> m_size v' = m_size v"
proof -
  show "valid_sv v'" using emplace_back_valid [OF assms(1), of c] assms(2) by simp
  show "length (m_storage v') = length (m_storage v)" using emplace_back_length [of c v] assms(2) by simp
  show "m_size v' = m_size v" if "thrown r \<noteq> None"
    using that emplace_back_size [of c v] assms(2) by (cases r) auto
qed

lemma emplace_back_returns_size:
  "emplace_back c v = (Returns k, v') \<Longrightarrow> m_size v' = Suc (m_size v)"
  using emplace_back_size [of c v] by simp

lemma index_of_end_minus:
  "0 \<le> count \<Longrightarrow> index_of v (operator_minus (end_sv v) count) = m_size v - nat count"
  by (simp add: index_of_def operator_diff_def begin_sv_def end_sv_def size_sv_def
      operator_minus_def nat_diff_distrib)

lemma insert_sv_kept:
  assumes v: "valid_sv v" and pos: "points_into v pos" and i: "insert_sv pos c v = (r, v')"
  shows "valid_sv v'" and "length (m_storage v') = length (m_storage v)"
    and "thrown r \<noteq> None \<Longrightarrow> m_size v' = m_size v"
proof -
  obtain r1 v1 where e: "emplace_back c v = (r1, v1)" by (cases "emplace_back c v")
  note k = emplace_back_kept [OF v e]
  have p0: "0 \<le> m_ptr pos" and pn: "nat (m_ptr pos) \<le> m_size v"
    using pos by (auto simp: points_into_def size_sv_def)
  have "valid_sv v' \<and> length (m_storage v') = length (m_storage v)
      \<and> (thrown r \<noteq> None \<longrightarrow> m_size v' = m_size v)"
  proof (cases r1)
    case (Throws x)
    then show ?thesis using i e k by (simp add: insert_sv_def)
  next
    case (Returns j)
    then have s: "m_size v1 = Suc (m_size v)" using e emplace_back_returns_size by blast
    have live: "map is_live (ranges_rotate (nat (m_ptr pos)) (m_size v) (m_size v1) (m_storage v1))
        = map is_live (m_storage v1)"
      using ranges_rotate_liveness [OF k(1), of "nat (m_ptr pos)" "m_size v"] pn s by simp
    have v': "v' = v1\<lparr>m_storage := ranges_rotate (nat (m_ptr pos)) (m_size v) (m_size v1) (m_storage v1)\<rparr>"
      and r: "r = Returns pos"
      using i e Returns p0 s by (simp_all add: insert_sv_def index_of_simps)
    show ?thesis
      using valid_same_liveness [OF k(1) live] k(2) by (simp add: v' r)
  qed
  then show "valid_sv v'" and "length (m_storage v') = length (m_storage v)"
    and "thrown r \<noteq> None \<Longrightarrow> m_size v' = m_size v" by simp_all
qed

lemma erase_kept:
  assumes v: "valid_sv v" and pos: "points_into v pos"
  shows "valid_sv (snd (erase mf pos v))"
    and "length (m_storage (snd (erase mf pos v))) = length (m_storage v)"
proof -
  have p0: "0 \<le> m_ptr pos" and pn: "nat (m_ptr pos) \<le> m_size v"
    using pos by (auto simp: points_into_def size_sv_def)
  let ?v1 = "v\<lparr>m_storage := ranges_move mf (Suc (nat (m_ptr pos))) (m_size v) (nat (m_ptr pos)) (m_storage v)\<rparr>"
  have v1: "valid_sv ?v1" using ranges_move_valid [OF v, of "nat (m_ptr pos)" "Suc (nat (m_ptr pos))" "m_size v" mf] by simp
  have e: "snd (erase mf pos v) = (if pos \<noteq> end_sv v then pop_back ?v1 else v)"
    using p0 by (simp add: erase_def Let_def index_of_simps)
  show "valid_sv (snd (erase mf pos v))" using v pop_back_valid [OF v1] by (simp add: e)
  show "length (m_storage (snd (erase mf pos v))) = length (m_storage v)"
    by (simp add: e pop_back_length ranges_move_length)
qed

lemma erase_range_kept:
  assumes v: "valid_sv v" and "points_into v first" and "points_into v last'"
    and "m_ptr first \<le> m_ptr last'"
  shows "valid_sv (snd (erase_range mf first last' v))"
    and "length (m_storage (snd (erase_range mf first last' v))) = length (m_storage v)"
proof -
  have f0: "0 \<le> m_ptr first" and l0: "0 \<le> m_ptr last'" and fl: "nat (m_ptr first) \<le> nat (m_ptr last')"
    using assms(2-4) by (auto simp: points_into_def)
  let ?v1 = "v\<lparr>m_storage := ranges_move mf (nat (m_ptr last')) (m_size v) (nat (m_ptr first)) (m_storage v)\<rparr>"
  have v1: "valid_sv ?v1" using ranges_move_valid [OF v fl, of "m_size v" mf] by simp
  have e: "snd (erase_range mf first last' v) = shrink_by (operator_diff last' first) ?v1"
    using f0 l0 by (simp add: erase_range_def Let_def index_of_simps)
  show "valid_sv (snd (erase_range mf first last' v))"
    using shrink_by_valid [OF v1] by (simp add: e)
  show "length (m_storage (snd (erase_range mf first last' v))) = length (m_storage v)"
    using shrink_by_valid [OF v1] by (simp add: e ranges_move_length)
qed

lemma insert_many_kept:
  assumes v: "valid_sv v" and pos: "points_into v pos" and c0: "0 \<le> count"
  shows "\<exists>r v'. insert_many pos count init v = Some (r, v') \<and> valid_sv v'
           \<and> length (m_storage v') = length (m_storage v)
           \<and> (thrown r \<noteq> None \<longrightarrow> m_size v' = m_size v)"
proof -
  obtain r1 v1 where e: "emplace_back_many count init v = Some (r1, v1)" and v1: "valid_sv v1"
    and len: "length (m_storage v1) = length (m_storage v)"
    and sz: "case r1 of Throws e \<Rightarrow> m_size v1 = m_size v | Returns u \<Rightarrow> m_size v1 = m_size v + nat count"
    using emplace_back_many_result [OF v, of count init] by blast
  have p0: "0 \<le> m_ptr pos" and pn: "nat (m_ptr pos) \<le> m_size v"
    using pos by (auto simp: points_into_def size_sv_def)
  show ?thesis
  proof (cases r1)
    case (Throws x)
    then show ?thesis using e v1 len sz by (simp add: insert_many_def)
  next
    case (Returns u)
    then have s: "m_size v1 = m_size v + nat count" using sz by simp
    have live: "map is_live (ranges_rotate (nat (m_ptr pos)) (m_size v) (m_size v1) (m_storage v1))
        = map is_live (m_storage v1)"
      using ranges_rotate_liveness [OF v1, of "nat (m_ptr pos)" "m_size v"] pn s by simp
    have "insert_many pos count init v = Some (Returns pos,
        v1\<lparr>m_storage := ranges_rotate (nat (m_ptr pos)) (m_size v) (m_size v1) (m_storage v1)\<rparr>)"
      using e Returns p0 c0 s by (simp add: insert_many_def index_of_simps index_of_end_minus)
    then show ?thesis using valid_same_liveness [OF v1 live] len by simp
  qed
qed

lemma insert_range_kept:
  assumes v: "valid_sv v" and pos: "points_into v pos"
  shows "\<exists>r v'. insert_range pos rng v = Some (r, v') \<and> valid_sv v'
           \<and> length (m_storage v') = length (m_storage v)
           \<and> (thrown r \<noteq> None \<longrightarrow> m_size v' = m_size v)"
proof -
  obtain r1 v1 where e: "emplace_back_range rng v = Some (r1, v1)" and v1: "valid_sv v1"
    and len: "length (m_storage v1) = length (m_storage v)"
    and sz: "case r1 of Throws e \<Rightarrow> m_size v1 = m_size v
                      | Returns k \<Rightarrow> k = length rng \<and> m_size v1 = m_size v + length rng"
    using emplace_back_range_result [OF v, of rng] by blast
  have p0: "0 \<le> m_ptr pos" and pn: "nat (m_ptr pos) \<le> m_size v"
    using pos by (auto simp: points_into_def size_sv_def)
  show ?thesis
  proof (cases r1)
    case (Throws x)
    then show ?thesis using e v1 len sz by (simp add: insert_range_def)
  next
    case (Returns k)
    then have s: "m_size v1 = m_size v + length rng" and k: "k = length rng" using sz by simp_all
    have live: "map is_live (ranges_rotate (nat (m_ptr pos)) (m_size v) (m_size v1) (m_storage v1))
        = map is_live (m_storage v1)"
      using ranges_rotate_liveness [OF v1, of "nat (m_ptr pos)" "m_size v"] pn s by simp
    have "insert_range pos rng v = Some (Returns pos,
        v1\<lparr>m_storage := ranges_rotate (nat (m_ptr pos)) (m_size v) (m_size v1) (m_storage v1)\<rparr>)"
      using e Returns p0 s k by (simp add: insert_range_def index_of_simps index_of_end_minus)
    then show ?thesis using valid_same_liveness [OF v1 live] len by simp
  qed
qed

lemma resize_kept:
  assumes v: "valid_sv v" and r: "resize count args v = Some (r, v')"
  shows "valid_sv v' \<and> length (m_storage v') = length (m_storage v)
      \<and> (thrown r \<noteq> None \<longrightarrow> m_size v' = m_size v)"
proof (cases "count \<le> int (size_sv v)")
  case True
  then obtain v1 where s: "shrink_to count v = Some v1" and rv: "r = Returns ()" "v' = v1"
    using r by (auto simp: resize_def split: Option.bind_splits)
  have "0 \<le> count" using shrink_to_returns_nonneg [OF s] .
  then show ?thesis using shrink_to_valid [OF v, of count] s rv by auto
next
  case False
  then have "emplace_back_many count args v = Some (r, v')" using r by (simp add: resize_def)
  then show ?thesis using emplace_back_many_result [OF v, of count args] by (cases r) auto
qed

lemma resize_init_kept:
  assumes v: "valid_sv v" and r: "resize_init count init v = Some (r, v')"
  shows "valid_sv v' \<and> length (m_storage v') = length (m_storage v)
      \<and> (thrown r \<noteq> None \<longrightarrow> m_size v' = m_size v)"
proof (cases "count \<le> int (size_sv v)")
  case True
  then obtain v1 where s: "shrink_to count v = Some v1" and rv: "r = Returns ()" "v' = v1"
    using r by (auto simp: resize_init_def split: Option.bind_splits)
  have "0 \<le> count" using shrink_to_returns_nonneg [OF s] .
  then show ?thesis using shrink_to_valid [OF v, of count] s rv by auto
next
  case False
  then have "emplace_back_many (int (nat count - size_sv v)) init v = Some (r, v')"
    using r by (simp add: resize_init_def)
  then show ?thesis
    using emplace_back_many_result [OF v, of "int (nat count - size_sv v)" init] by (cases r) auto
qed

lemma assigned_prefix_liveness:
  assumes v: "valid_sv v" and "length ys \<le> m_size v"
  shows "map is_live (map Live ys @ drop (length ys) (m_storage v)) = map is_live (m_storage v)"
proof -
  let ?n = "m_size v"
  let ?F = "replicate (length (m_storage v) - ?n) False"
  have live: "map is_live (m_storage v) = replicate ?n True @ ?F" using v by (simp add: valid_sv_def)
  have "map is_live (map Live ys) = replicate (length ys) True"
    by (simp add: map_replicate_const [symmetric] comp_def)
  moreover have "map is_live (drop (length ys) (m_storage v)) = replicate (?n - length ys) True @ ?F"
    using assms(2) by (simp add: drop_map [symmetric] live)
  ultimately have "map is_live (map Live ys @ drop (length ys) (m_storage v))
      = replicate (length ys + (?n - length ys)) True @ ?F"
    by (simp add: replicate_add)
  then show ?thesis using assms(2) live by simp
qed

lemma operator_assign_kept:
  assumes v: "valid_sv v"
  shows "\<exists>r v'. operator_assign mc other v = Some (r, v') \<and> valid_sv v'
           \<and> length (m_storage v') = length (m_storage v)
           \<and> (thrown r \<noteq> None \<longrightarrow> m_size v' = m_size v)"
proof (cases "size_sv v \<le> length other")
  case True
  let ?ys = "take (m_size v) other"
  have ly: "length ?ys = m_size v" using True by (simp add: size_sv_def)
  let ?v1 = "v\<lparr>m_storage := map Live ?ys @ drop (m_size v) (m_storage v)\<rparr>"
  have live: "map is_live (map Live ?ys @ drop (m_size v) (m_storage v)) = map is_live (m_storage v)"
    using assigned_prefix_liveness [OF v, of ?ys] ly by simp
  note k = valid_same_liveness [OF v live]
  obtain r1 v2 where e: "emplace_back_range (map mc (drop (m_size v) other)) ?v1 = Some (r1, v2)"
    and v2: "valid_sv v2" and len: "length (m_storage v2) = length (m_storage ?v1)"
    and sz: "case r1 of Throws e \<Rightarrow> m_size v2 = m_size ?v1 | Returns k \<Rightarrow>
        k = length (map mc (drop (m_size v) other)) \<and>
        m_size v2 = m_size ?v1 + length (map mc (drop (m_size v) other))"
    using emplace_back_range_result [OF k(1), of "map mc (drop (m_size v) other)"] by blast
  have "operator_assign mc other v =
      Some (case r1 of Throws e \<Rightarrow> Throws e | Returns n \<Rightarrow> Returns (), v2)"
    using True e by (simp add: operator_assign_def size_sv_def Let_def)
  then show ?thesis using v2 len k(2) sz by (cases r1) auto
next
  case False
  then have lo: "length other \<le> m_size v" by (simp add: size_sv_def)
  let ?v1 = "v\<lparr>m_storage := map Live other @ drop (length other) (m_storage v)\<rparr>"
  note k = valid_same_liveness [OF v assigned_prefix_liveness [OF v lo]]
  obtain v2 where s: "shrink_to (int (length other)) ?v1 = Some v2" and v2: "valid_sv v2"
    and len: "length (m_storage v2) = length (m_storage ?v1)"
    using shrink_to_valid [OF k(1), of "int (length other)"] by auto
  have "operator_assign mc other v = Some (Returns (), v2)"
    using False s by (simp add: operator_assign_def Let_def)
  then show ?thesis using v2 len k(2) by simp
qed

lemma apply_op_kept:
  assumes v: "valid_sv v" and pre: "op_pre v op" and a: "apply_op mf op v = Some (r, v')"
  shows "valid_sv v' \<and> length (m_storage v') = length (m_storage v)
      \<and> (r \<noteq> None \<longrightarrow> m_size v' = m_size v)"
proof (cases op)
  case (Emplace_back c)
  then obtain r1 where "emplace_back c v = (r1, v')" "r = thrown r1"
    using a by (cases "emplace_back c v") (auto simp: forget_def)
  then show ?thesis using emplace_back_kept [OF v, of c r1 v'] by simp
next
  case (Push_back c)
  then obtain r1 where "emplace_back c v = (r1, v')" "r = thrown r1"
    using a by (cases "emplace_back c v") (auto simp: forget_def push_back_def)
  then show ?thesis using emplace_back_kept [OF v, of c r1 v'] by simp
next
  case Pop_back
  then show ?thesis using a pop_back_valid [OF v] by (auto simp: pop_back_length)
next
  case (Insert pos c)
  then obtain r1 where "insert_sv pos c v = (r1, v')" "r = thrown r1"
    using a by (cases "insert_sv pos c v") (auto simp: forget_def)
  then show ?thesis using insert_sv_kept [OF v, of pos c r1 v'] pre Insert by simp
next
  case (Erase pos)
  then have "r = None" and "m_size v' = m_size (snd (erase mf pos v))"
    and "m_storage v' = m_storage (snd (erase mf pos v))"
    using a by (auto split: prod.splits option.splits)
  then show ?thesis using erase_kept [OF v, of pos mf] pre Erase by (simp add: valid_sv_def)
next
  case Clear
  then have "shrink_to 0 v = Some v'" "r = None" using a by (auto simp: clear_def)
  then show ?thesis using shrink_to_valid [OF v, of 0] by auto
next
  case (Shrink_by n)
  then show ?thesis using a shrink_by_valid [OF v, of n] by auto
next
  case (Shrink_to n)
  then have s: "shrink_to n v = Some v'" "r = None" using a by auto
  then show ?thesis using shrink_to_valid [OF v shrink_to_returns_nonneg [OF s(1)]] by auto
next
  case (Resize n args)
  then obtain r1 where "resize n args v = Some (r1, v')" "r = thrown r1"
    using a by (auto simp: forget_def)
  then show ?thesis using resize_kept [OF v, of n args r1 v'] by simp
next
  case (Resize_init n init)
  then obtain r1 where "resize_init n init v = Some (r1, v')" "r = thrown r1"
    using a by (auto simp: forget_def)
  then show ?thesis using resize_init_kept [OF v, of n init r1 v'] by simp
next
  case (Erase_range first last')
  then show ?thesis using a erase_range_kept [OF v, of first last' mf] pre by auto
next
  case (Insert_many pos n init)
  then show ?thesis using a insert_many_kept [OF v, of pos n init] pre by (auto simp: forget_def)
next
  case (Insert_range pos rng)
  then show ?thesis using a insert_range_kept [OF v, of pos rng] pre by (auto simp: forget_def)
next
  case (Emplace_back_many n args)
  then obtain r1 where e: "emplace_back_many n args v = Some (r1, v')" "r = thrown r1"
    using a by (auto simp: forget_def)
  then show ?thesis using emplace_back_many_result [OF v, of n args] by (cases r1) auto
next
  case (Emplace_back_range rng)
  then obtain r1 where e: "emplace_back_range rng v = Some (r1, v')" "r = thrown r1"
    using a by (auto simp: forget_def)
  then show ?thesis using emplace_back_range_result [OF v, of rng] by (cases r1) auto
next
  case (Assign mc other)
  then show ?thesis using a operator_assign_kept [OF v, of mc other] by (auto simp: forget_def)
qed

lemma resize_returns_size:
  assumes v: "valid_sv v" and gt: "int (size_sv v) < count"
    and r: "resize count args v = Some (Returns (), v')"
  shows "m_size v' = m_size v + nat count"
proof -
  have "emplace_back_many count args v = Some (Returns (), v')"
    using gt r by (simp add: resize_def)
  then show ?thesis using emplace_back_many_result [OF v, of count args] by auto
qed

lemma resize_init_returns_size:
  assumes v: "valid_sv v" and gt: "int (size_sv v) < count"
    and r: "resize_init count init v = Some (Returns (), v')"
  shows "m_size v' = nat count"
proof -
  have "emplace_back_many (int (nat count - size_sv v)) init v = Some (Returns (), v')"
    using gt r by (simp add: resize_init_def)
  then have "m_size v' = m_size v + nat (int (nat count - size_sv v))"
    using emplace_back_many_result [OF v, of "int (nat count - size_sv v)" init] by auto
  then show ?thesis using gt by (simp add: size_sv_def)
qed

subsection \<open>Constructors and reachable states\<close>

lemma static_vector_default_valid:
  "valid_sv (static_vector_default N)" "length (m_storage (static_vector_default N)) = N"
  "m_size (static_vector_default N) = 0"
  by (simp_all add: static_vector_default_def valid_sv_def)

lemma clear_grown:
  assumes "grown (static_vector_default N) v1"
  shows "\<exists>v2. clear v1 = Some v2 \<and> valid_sv v2 \<and> length (m_storage v2) = N \<and> m_size v2 = 0"
  using rollback [OF assms] by (simp add: clear_def static_vector_default_valid)

lemma static_vector_range_result:
  "\<exists>r v. static_vector_range N rng = Some (r, v) \<and> valid_sv v \<and> length (m_storage v) = N
      \<and> (thrown r \<noteq> None \<longrightarrow> m_size v = 0)"
proof -
  let ?d = "static_vector_default N :: 'a static_vector"
  obtain r1 v1 where l: "emplace_back_each rng ?d = (r1, v1)" by (cases "emplace_back_each rng ?d")
  have g: "grown ?d v1"
    using emplace_back_each_grown [OF grown_refl [OF static_vector_default_valid(1)], of N rng] l by simp
  show ?thesis
  proof (cases r1)
    case (Returns u)
    then show ?thesis using l g
      by (simp add: static_vector_range_def grown_def static_vector_default_valid)
  next
    case (Throws e)
    then show ?thesis using l clear_grown [OF g] by (auto simp: static_vector_range_def)
  qed
qed

lemma static_vector_count_in_place_result:
  "\<exists>r v. static_vector_count_in_place N count args dflt = Some (r, v) \<and> valid_sv v
      \<and> length (m_storage v) = N \<and> (thrown r \<noteq> None \<longrightarrow> m_size v = 0)"
proof -
  let ?d = "static_vector_default N :: 'a static_vector"
  obtain r1 v1 where l: "emplace_back_each args ?d = (r1, v1)" by (cases "emplace_back_each args ?d")
  have g: "grown ?d v1"
    using emplace_back_each_grown [OF grown_refl [OF static_vector_default_valid(1)], of N args] l by simp
  then have v1: "valid_sv v1" and len1: "length (m_storage v1) = N"
    by (simp_all add: grown_def static_vector_default_valid)
  show ?thesis
  proof (cases r1)
    case (Throws e)
    then show ?thesis using l clear_grown [OF g] by (auto simp: static_vector_count_in_place_def)
  next
    case (Returns u)
    show ?thesis
    proof (cases "int (length args) < count")
      case False
      then show ?thesis using Returns l v1 len1 by (simp add: static_vector_count_in_place_def)
    next
      case True
      obtain r2 v2 where m: "emplace_back_many (int (nat count - length args)) dflt v1 = Some (r2, v2)"
        and v2: "valid_sv v2" and len2: "length (m_storage v2) = length (m_storage v1)"
        using emplace_back_many_result [OF v1, of "int (nat count - length args)" dflt] by blast
      show ?thesis
      proof (cases r2)
        case (Returns w)
        then show ?thesis using True \<open>r1 = Returns u\<close> l m v2 len2 len1
          by (simp add: static_vector_count_in_place_def)
      next
        case (Throws e)
        have "grown ?d v2" using v2 len2 len1 by (simp add: grown_def static_vector_default_valid)
        then show ?thesis using Throws True \<open>r1 = Returns u\<close> l m clear_grown [of N v2]
          by (auto simp: static_vector_count_in_place_def)
      qed
    qed
  qed
qed

lemma construct_sv_kept:
  assumes "construct_sv N c = Some (r, v)"
  shows "valid_sv v \<and> length (m_storage v) = N \<and> (r \<noteq> None \<longrightarrow> m_size v = 0)"
proof (cases c)
  case Default
  then show ?thesis using assms by (auto simp: static_vector_default_valid)
next
  case (Count n args)
  then obtain r1 where "emplace_back_many n args (static_vector_default N) = Some (r1, v)" "r = thrown r1"
    using assms by (auto simp: forget_def static_vector_count_def)
  then show ?thesis
    using emplace_back_many_result [OF static_vector_default_valid(1), of n args N]
    by (cases r1) (auto simp: static_vector_default_valid)
next
  case (Count_init n init)
  then obtain r1 where "emplace_back_many n init (static_vector_default N) = Some (r1, v)" "r = thrown r1"
    using assms by (auto simp: forget_def static_vector_count_init_def)
  then show ?thesis
    using emplace_back_many_result [OF static_vector_default_valid(1), of n init N]
    by (cases r1) (auto simp: static_vector_default_valid)
next
  case (Range rng)
  then show ?thesis using assms static_vector_range_result [of N rng] by (auto simp: forget_def)
next
  case (Count_in_place n args dflt)
  then show ?thesis using assms static_vector_count_in_place_result [of N n args dflt]
    by (auto simp: forget_def)
qed

lemma reachable_valid:
  "reachable mf N v \<Longrightarrow> valid_sv v \<and> length (m_storage v) = N \<and> \<not> undefined_behaviour v"
proof (induction rule: reachable.induct)
  case (constructed c r v)
  then show ?case using construct_sv_kept by blast
next
  case (modified v op r v')
  then show ?case using apply_op_kept [of v op mf r v'] by simp
qed

subsection \<open>Appending more than fits\<close>

lemma emplace_back_loop_overflow:
  "valid_sv v \<Longrightarrow> (\<forall>j. args j \<noteq> Ctor_throws) \<Longrightarrow>
   length (m_storage v) < m_size v + nat (count - int i) \<Longrightarrow>
   fst (emplace_back_loop args i count v) = Throws Logic_error"
proof (induction args i count v rule: emplace_back_loop.induct)
  case (1 args i count v)
  have lt: "int i < count" using "1.prems"(1,3) valid_size_le [of v] by (cases "int i < count") auto
  obtain r v1 where e: "emplace_back (args i) v = (r, v1)" by (cases "emplace_back (args i) v")
  show ?case
  proof (cases "args i" v rule: emplace_back_cases)
    case full
    then show ?thesis using lt by (subst emplace_back_loop.simps) simp
  next
    case (built x)
    then obtain k where r: "r = Returns k" and s: "m_size v1 = Suc (m_size v)" using e by simp
    have v1: "valid_sv v1" and len: "length (m_storage v1) = length (m_storage v)"
      using emplace_back_kept(1,2) [OF "1.prems"(1) e] by simp_all
    have "length (m_storage v1) < m_size v1 + nat (count - int (Suc i))"
      using "1.prems"(3) lt s len by (simp add: nat_diff_distrib)
    then have "fst (emplace_back_loop args (Suc i) count v1) = Throws Logic_error"
      using "1.IH" [OF lt e [symmetric] _ v1 "1.prems"(2)] r by simp
    then show ?thesis using lt e r by (subst emplace_back_loop.simps) simp
  next
    case failed
    then show ?thesis using "1.prems"(2) by simp
  qed
qed

lemma emplace_back_each_overflow:
  "valid_sv v \<Longrightarrow> Ctor_throws \<notin> set cs \<Longrightarrow> length (m_storage v) < m_size v + length cs \<Longrightarrow>
   fst (emplace_back_each cs v) = Throws Logic_error"
proof (induction cs arbitrary: v)
  case Nil
  then show ?case using valid_size_le [of v] by simp
next
  case (Cons c cs)
  obtain r v1 where e: "emplace_back c v = (r, v1)" by (cases "emplace_back c v")
  show ?case
  proof (cases c v rule: emplace_back_cases)
    case full
    then show ?thesis by simp
  next
    case (built x)
    then obtain k where r: "r = Returns k" and s: "m_size v1 = Suc (m_size v)" using e by simp
    have v1: "valid_sv v1" and len: "length (m_storage v1) = length (m_storage v)"
      using emplace_back_kept(1,2) [OF Cons.prems(1) e] by simp_all
    have "fst (emplace_back_each cs v1) = Throws Logic_error"
      using Cons.IH [OF v1] Cons.prems(2,3) s len by simp
    then show ?thesis using e r by simp
  next
    case failed
    then show ?thesis using Cons.prems(2) by simp
  qed
qed

lemma emplace_back_many_overflow:
  assumes v: "valid_sv v" and "\<forall>j. args j \<noteq> Ctor_throws"
    and "int (length (m_storage v)) < int (m_size v) + count"
  shows "\<exists>v'. emplace_back_many count args v = Some (Throws Logic_error, v') \<and> m_size v' = m_size v"
proof -
  have "length (m_storage v) < m_size v + nat (count - int 0)" using assms(3) by linarith
  then have f: "fst (emplace_back_loop args 0 count v) = Throws Logic_error"
    using emplace_back_loop_overflow [OF v assms(2)] by blast
  obtain v1 where l: "emplace_back_loop args 0 count v = (Throws Logic_error, v1)"
    using f by (cases "emplace_back_loop args 0 count v") simp
  have g: "grown v v1" using emplace_back_loop_grown [OF grown_refl [OF v], of args 0 count] l by simp
  show ?thesis using rollback [OF g] l by (auto simp: emplace_back_many_def size_sv_def)
qed

lemma emplace_back_range_overflow:
  assumes v: "valid_sv v" and "Ctor_throws \<notin> set rng"
    and "length (m_storage v) < m_size v + length rng"
  shows "\<exists>v'. emplace_back_range rng v = Some (Throws Logic_error, v') \<and> m_size v' = m_size v"
proof -
  have f: "fst (emplace_back_each rng v) = Throws Logic_error"
    using emplace_back_each_overflow [OF assms] .
  obtain v1 where l: "emplace_back_each rng v = (Throws Logic_error, v1)"
    using f by (cases "emplace_back_each rng v") simp
  have g: "grown v v1" using emplace_back_each_grown [OF grown_refl [OF v], of rng] l by simp
  show ?thesis using rollback [OF g] l by (auto simp: emplace_back_range_def size_sv_def)
qed

lemma apply_op_returns:
  assumes v: "valid_sv v" and pre: "op_pre v op" and nn: "\<not> negative_target op"
  shows "\<exists>r v'. apply_op mf op v = Some (r, v')"
proof (cases op)
  case Clear
  then show ?thesis using shrink_to_valid [OF v, of 0] by (auto simp: clear_def)
next
  case (Shrink_to n)
  then show ?thesis using nn shrink_to_valid [OF v, of n] by (auto simp: negative_target_def)
next
  case (Resize n args)
  then have n: "0 \<le> n" using nn by (simp add: negative_target_def)
  show ?thesis
    using Resize shrink_to_valid [OF v n] emplace_back_many_result [OF v, of n args]
    by (auto simp: resize_def forget_def)
next
  case (Resize_init n init)
  then have n: "0 \<le> n" using nn by (simp add: negative_target_def)
  show ?thesis
    using Resize_init shrink_to_valid [OF v n]
      emplace_back_many_result [OF v, of "int (nat n - size_sv v)" init]
    by (auto simp: resize_init_def forget_def)
next
  case (Insert_many pos n init)
  then show ?thesis using insert_many_kept [OF v, of pos n init] pre by (auto simp: forget_def)
next
  case (Insert_range pos rng)
  then show ?thesis using insert_range_kept [OF v, of pos rng] pre by (auto simp: forget_def)
next
  case (Emplace_back_many n args)
  then show ?thesis using emplace_back_many_result [OF v, of n args] by (auto simp: forget_def)
next
  case (Emplace_back_range rng)
  then show ?thesis using emplace_back_range_result [OF v, of rng] by (auto simp: forget_def)
next
  case (Assign mc other)
  then show ?thesis using operator_assign_kept [OF v, of mc other] by (auto simp: forget_def)
qed (auto simp: forget_def split: prod.splits option.splits)

subsection \<open>Calls whose behaviour is defined\<close>

lemma emplace_back_defined:
  assumes "valid_sv v" and "c \<noteq> Ctor_throws"
  shows "undefined_behaviour (snd (emplace_back c v)) = undefined_behaviour v"
  using emplace_back_undefined [OF assms(1), of c] assms(2) by simp

lemma emplace_back_each_defined:
  "valid_sv v \<Longrightarrow> Ctor_throws \<notin> set cs \<Longrightarrow>
   undefined_behaviour (snd (emplace_back_each cs v)) = undefined_behaviour v"
proof (induction cs arbitrary: v)
  case Nil
  then show ?case by simp
next
  case (Cons c cs)
  obtain r v1 where e: "emplace_back c v = (r, v1)" by (cases "emplace_back c v")
  have c: "c \<noteq> Ctor_throws" using Cons.prems(2) by auto
  have v1: "valid_sv v1" using emplace_back_valid [OF Cons.prems(1), of c] e by simp
  have u: "undefined_behaviour v1 = undefined_behaviour v"
    using emplace_back_defined [OF Cons.prems(1) c] e by simp
  show ?case
  proof (cases r)
    case (Returns k)
    then show ?thesis using e u Cons.IH [OF v1] Cons.prems(2) by simp
  next
    case (Throws x)
    then show ?thesis using e u by simp
  qed
qed

lemma emplace_back_loop_defined:
  "valid_sv v \<Longrightarrow> (\<forall>j. args j \<noteq> Ctor_throws) \<Longrightarrow>
   undefined_behaviour (snd (emplace_back_loop args i count v)) = undefined_behaviour v"
proof (induction args i count v rule: emplace_back_loop.induct)
  case (1 args i count v)
  show ?case
  proof (cases "int i < count")
    case False
    then show ?thesis by (simp add: emplace_back_loop_done)
  next
    case True
    obtain r v1 where e: "emplace_back (args i) v = (r, v1)" by (cases "emplace_back (args i) v")
    have c: "args i \<noteq> Ctor_throws" using "1.prems"(2) by simp
    have v1: "valid_sv v1" using emplace_back_valid [OF "1.prems"(1), of "args i"] e by simp
    have u: "undefined_behaviour v1 = undefined_behaviour v"
      using emplace_back_defined [OF "1.prems"(1) c] e by simp
    show ?thesis
    proof (cases r)
      case (Returns k)
      then show ?thesis
        using True e u "1.IH" [OF True e [symmetric] _ v1 "1.prems"(2)]
        by (subst emplace_back_loop.simps) simp
    next
      case (Throws x)
      then show ?thesis using True e u by (subst emplace_back_loop.simps) simp
    qed
  qed
qed

lemma rollback_defined:
  assumes "grown v v1" and "shrink_to (int (m_size v)) v1 = Some v2"
  shows "undefined_behaviour v2 = undefined_behaviour v1"
  using assms by (auto simp: grown_def shrink_to_nonneg funpow_pop_back_defined)

lemma shrink_to_defined:
  assumes "valid_sv v" and "shrink_to count v = Some v'"
  shows "undefined_behaviour v' = undefined_behaviour v"
proof -
  have "0 \<le> count" using shrink_to_returns_nonneg [OF assms(2)] .
  then show ?thesis using assms by (auto simp: shrink_to_nonneg funpow_pop_back_defined)
qed

lemma shrink_by_defined:
  "valid_sv v \<Longrightarrow> undefined_behaviour (shrink_by count v) = undefined_behaviour v"
  by (simp add: shrink_by_closed funpow_pop_back_defined)

lemma emplace_back_many_defined:
  assumes v: "valid_sv v" and a: "\<forall>j. args j \<noteq> Ctor_throws"
    and e: "emplace_back_many count args v = Some (r, v')"
  shows "undefined_behaviour v' = undefined_behaviour v"
proof -
  obtain r1 v1 where l: "emplace_back_loop args 0 count v = (r1, v1)"
    by (cases "emplace_back_loop args 0 count v")
  have g: "grown v v1" using emplace_back_loop_grown [OF grown_refl [OF v], of args 0 count] l by simp
  have u: "undefined_behaviour v1 = undefined_behaviour v"
    using emplace_back_loop_defined [OF v a, of 0 count] l by simp
  show ?thesis
  proof (cases r1)
    case (Returns k)
    then show ?thesis using e l u by (simp add: emplace_back_many_def)
  next
    case (Throws x)
    then obtain v2 where s: "shrink_to (int (m_size v)) v1 = Some v2" and "v' = v2"
      using e l by (auto simp: emplace_back_many_def size_sv_def split: Option.bind_splits)
    then show ?thesis using rollback_defined [OF g s] u by simp
  qed
qed

lemma emplace_back_range_defined:
  assumes v: "valid_sv v" and a: "Ctor_throws \<notin> set rng"
    and e: "emplace_back_range rng v = Some (r, v')"
  shows "undefined_behaviour v' = undefined_behaviour v"
proof -
  obtain r1 v1 where l: "emplace_back_each rng v = (r1, v1)"
    by (cases "emplace_back_each rng v")
  have g: "grown v v1" using emplace_back_each_grown [OF grown_refl [OF v], of rng] l by simp
  have u: "undefined_behaviour v1 = undefined_behaviour v"
    using emplace_back_each_defined [OF v a] l by simp
  show ?thesis
  proof (cases r1)
    case (Returns k)
    then show ?thesis using e l u by (simp add: emplace_back_range_def)
  next
    case (Throws x)
    then obtain v2 where s: "shrink_to (int (m_size v)) v1 = Some v2" and "v' = v2"
      using e l by (auto simp: emplace_back_range_def size_sv_def split: Option.bind_splits)
    then show ?thesis using rollback_defined [OF g s] u by simp
  qed
qed

lemma insert_sv_undefined:
  "undefined_behaviour (snd (insert_sv pos c v)) = undefined_behaviour (snd (emplace_back c v))"
  by (cases "emplace_back c v") (auto simp: insert_sv_def split: outcome.splits)

lemma insert_many_defined:
  assumes v: "valid_sv v" and a: "\<forall>j. init j \<noteq> Ctor_throws"
    and e: "insert_many pos count init v = Some (r, v')"
  shows "undefined_behaviour v' = undefined_behaviour v"
proof -
  obtain r1 v1 where m: "emplace_back_many count init v = Some (r1, v1)"
    using e by (auto simp: insert_many_def split: Option.bind_splits)
  have "undefined_behaviour v' = undefined_behaviour v1"
    using e m by (cases r1) (auto simp: insert_many_def)
  then show ?thesis using emplace_back_many_defined [OF v a m] by simp
qed

lemma insert_range_defined:
  assumes v: "valid_sv v" and a: "Ctor_throws \<notin> set rng"
    and e: "insert_range pos rng v = Some (r, v')"
  shows "undefined_behaviour v' = undefined_behaviour v"
proof -
  obtain r1 v1 where m: "emplace_back_range rng v = Some (r1, v1)"
    using e by (auto simp: insert_range_def split: Option.bind_splits)
  have "undefined_behaviour v' = undefined_behaviour v1"
    using e m by (cases r1) (auto simp: insert_range_def)
  then show ?thesis using emplace_back_range_defined [OF v a m] by simp
qed

lemma resize_defined:
  assumes v: "valid_sv v" and a: "\<forall>j. args j \<noteq> Ctor_throws"
    and e: "resize count args v = Some (r, v')"
  shows "undefined_behaviour v' = undefined_behaviour v"
proof (cases "count \<le> int (size_sv v)")
  case True
  then obtain v1 where "shrink_to count v = Some v1" "v' = v1"
    using e by (auto simp: resize_def split: Option.bind_splits)
  then show ?thesis using shrink_to_defined [OF v] by simp
next
  case False
  then show ?thesis using e emplace_back_many_defined [OF v a] by (simp add: resize_def)
qed

lemma resize_init_defined:
  assumes v: "valid_sv v" and a: "\<forall>j. init j \<noteq> Ctor_throws"
    and e: "resize_init count init v = Some (r, v')"
  shows "undefined_behaviour v' = undefined_behaviour v"
proof (cases "count \<le> int (size_sv v)")
  case True
  then obtain v1 where "shrink_to count v = Some v1" "v' = v1"
    using e by (auto simp: resize_init_def split: Option.bind_splits)
  then show ?thesis using shrink_to_defined [OF v] by simp
next
  case False
  then show ?thesis using e emplace_back_many_defined [OF v a] by (simp add: resize_init_def)
qed

lemma erase_range_defined:
  assumes v: "valid_sv v" and "points_into v first" and "points_into v last'"
    and "m_ptr first \<le> m_ptr last'"
  shows "undefined_behaviour (snd (erase_range mf first last' v)) = undefined_behaviour v"
proof -
  have f0: "0 \<le> m_ptr first" and l0: "0 \<le> m_ptr last'" and fl: "nat (m_ptr first) \<le> nat (m_ptr last')"
    using assms(2-4) by (auto simp: points_into_def)
  let ?v1 = "v\<lparr>m_storage := ranges_move mf (nat (m_ptr last')) (m_size v) (nat (m_ptr first)) (m_storage v)\<rparr>"
  have v1: "valid_sv ?v1" using ranges_move_valid [OF v fl, of "m_size v" mf] by simp
  have e: "snd (erase_range mf first last' v) = shrink_by (operator_diff last' first) ?v1"
    using f0 l0 by (simp add: erase_range_def Let_def index_of_simps)
  show ?thesis using shrink_by_defined [OF v1] by (simp add: e)
qed

lemma iterator_not_end:
  "pos \<noteq> end_sv v \<Longrightarrow> m_ptr pos \<noteq> int (m_size v)"
  by (cases pos) (auto simp: end_sv_def size_sv_def)

lemma erase_defined:
  assumes v: "valid_sv v" and pos: "points_into v pos" and ne: "pos \<noteq> end_sv v"
  shows "apply_op mf (Erase pos) v = Some (None, snd (erase mf pos v))"
    and "undefined_behaviour (snd (erase mf pos v)) = undefined_behaviour v"
proof -
  have p0: "0 \<le> m_ptr pos" and pn: "m_ptr pos < int (m_size v)"
    using pos iterator_not_end [OF ne] by (auto simp: points_into_def size_sv_def)
  note e = erase_before_end [OF v p0 pn, of mf]
  show "apply_op mf (Erase pos) v = Some (None, snd (erase mf pos v))"
    using e(1) by (cases "erase mf pos v") simp
  show "undefined_behaviour (snd (erase mf pos v)) = undefined_behaviour v" using e(5) .
qed

lemma erase_at_end_undefined:
  "apply_op mf (Erase (end_sv v)) v = Some (None, v\<lparr>undefined_behaviour := True\<rparr>)"
  by (simp add: erase_def)

lemma operator_assign_defined:
  assumes v: "valid_sv v" and a: "Ctor_throws \<notin> mc ` set other"
    and e: "operator_assign mc other v = Some (r, v')"
  shows "undefined_behaviour v' = undefined_behaviour v"
proof (cases "size_sv v \<le> length other")
  case True
  let ?ys = "take (m_size v) other"
  have ly: "length ?ys = m_size v" using True by (simp add: size_sv_def)
  let ?v1 = "v\<lparr>m_storage := map Live ?ys @ drop (m_size v) (m_storage v)\<rparr>"
  have live: "map is_live (map Live ?ys @ drop (m_size v) (m_storage v)) = map is_live (m_storage v)"
    using assigned_prefix_liveness [OF v, of ?ys] ly by simp
  note k = valid_same_liveness [OF v live]
  have c: "Ctor_throws \<notin> set (map mc (drop (m_size v) other))"
    using a set_drop_subset [of "m_size v" other] by auto
  obtain r1 where "emplace_back_range (map mc (drop (m_size v) other)) ?v1 = Some (r1, v')"
    using True e by (auto simp: operator_assign_def size_sv_def Let_def split: Option.bind_splits)
  then show ?thesis using emplace_back_range_defined [OF k(1) c] by simp
next
  case False
  then have lo: "length other \<le> m_size v" by (simp add: size_sv_def)
  let ?v1 = "v\<lparr>m_storage := map Live other @ drop (length other) (m_storage v)\<rparr>"
  note k = valid_same_liveness [OF v assigned_prefix_liveness [OF v lo]]
  have "shrink_to (int (length other)) ?v1 = Some v'"
    using False e by (auto simp: operator_assign_def Let_def split: Option.bind_splits)
  then show ?thesis using shrink_to_defined [OF k(1)] by simp
qed

lemma apply_op_defined:
  assumes v: "valid_sv v" and pre: "op_pre v op" and nt: "no_throwing_construction op"
    and ne: "op \<noteq> Erase (end_sv v)" and a: "apply_op mf op v = Some (r, v')"
  shows "undefined_behaviour v' = undefined_behaviour v"
proof (cases op)
  case (Emplace_back c)
  then show ?thesis using a nt emplace_back_defined [OF v, of c]
    by (cases "emplace_back c v") (auto simp: forget_def)
next
  case (Push_back c)
  then show ?thesis using a nt emplace_back_defined [OF v, of c]
    by (cases "emplace_back c v") (auto simp: forget_def push_back_def)
next
  case Pop_back
  then show ?thesis using a pop_back_defined [OF v] by auto
next
  case (Insert pos c)
  then show ?thesis using a nt emplace_back_defined [OF v, of c] insert_sv_undefined [of pos c v]
    by (cases "insert_sv pos c v") (auto simp: forget_def)
next
  case (Erase pos)
  then show ?thesis using a ne pre erase_defined [OF v, of pos mf] by auto
next
  case Clear
  then show ?thesis using a shrink_to_defined [OF v, of 0 v'] by (auto simp: clear_def)
next
  case (Shrink_by n)
  then show ?thesis using a shrink_by_defined [OF v, of n] by auto
next
  case (Shrink_to n)
  then show ?thesis using a shrink_to_defined [OF v, of n v'] by auto
next
  case (Resize n args)
  then show ?thesis using a nt resize_defined [OF v, of args n] by (auto simp: forget_def)
next
  case (Resize_init n init)
  then show ?thesis using a nt resize_init_defined [OF v, of init n] by (auto simp: forget_def)
next
  case (Erase_range first last')
  then show ?thesis using a pre erase_range_defined [OF v, of first last' mf] by auto
next
  case (Insert_many pos n init)
  then show ?thesis using a nt insert_many_defined [OF v, of init pos n] by (auto simp: forget_def)
next
  case (Insert_range pos rng)
  then show ?thesis using a nt insert_range_defined [OF v, of rng pos] by (auto simp: forget_def)
next
  case (Emplace_back_many n args)
  then show ?thesis using a nt emplace_back_many_defined [OF v, of args n] by (auto simp: forget_def)
next
  case (Emplace_back_range rng)
  then show ?thesis using a nt emplace_back_range_defined [OF v, of rng] by (auto simp: forget_def)
next
  case (Assign mc other)
  then show ?thesis using a nt operator_assign_defined [OF v, of mc other] by (auto simp: forget_def)
qed

subsection \<open>More than the capacity, in every operation\<close>

lemma emplace_back_each_fits:
  "valid_sv v \<Longrightarrow> Ctor_throws \<notin> set cs \<Longrightarrow> m_size v + length cs \<le> length (m_storage v) \<Longrightarrow>
   fst (emplace_back_each cs v) = Returns ()"
proof (induction cs arbitrary: v)
  case Nil
  then show ?case by simp
next
  case (Cons c cs)
  obtain r v1 where e: "emplace_back c v = (r, v1)" by (cases "emplace_back c v")
  have nf: "\<not> full v" using Cons.prems(3) by (simp add: full_def size_sv_def max_size_def)
  show ?case
  proof (cases c v rule: emplace_back_cases)
    case full
    then show ?thesis using nf by simp
  next
    case (built x)
    then obtain k where r: "r = Returns k" and s: "m_size v1 = Suc (m_size v)" using e by simp
    have v1: "valid_sv v1" and len: "length (m_storage v1) = length (m_storage v)"
      using emplace_back_kept(1,2) [OF Cons.prems(1) e] by simp_all
    have "fst (emplace_back_each cs v1) = Returns ()"
      using Cons.IH [OF v1] Cons.prems(2,3) s len by simp
    then show ?thesis using e r by simp
  next
    case failed
    then show ?thesis using Cons.prems(2) by simp
  qed
qed

lemma clear_defined:
  assumes "valid_sv v" and "clear v = Some v'"
  shows "undefined_behaviour v' = undefined_behaviour v"
  using assms shrink_to_defined [of v 0 v'] by (simp add: clear_def)

lemma static_vector_default_defined: "\<not> undefined_behaviour (static_vector_default N)"
  by (simp add: static_vector_default_def)

lemma static_vector_range_defined:
  assumes "Ctor_throws \<notin> set rng" and "static_vector_range N rng = Some (r, v)"
  shows "\<not> undefined_behaviour v"
proof -
  let ?d = "static_vector_default N :: 'a static_vector"
  have d: "valid_sv ?d" by (rule static_vector_default_valid(1))
  obtain r1 v1 where l: "emplace_back_each rng ?d = (r1, v1)" by (cases "emplace_back_each rng ?d")
  have g: "grown ?d v1" using emplace_back_each_grown [OF grown_refl [OF d], of rng] l by simp
  then have v1: "valid_sv v1" by (simp add: grown_def)
  have u: "\<not> undefined_behaviour v1"
    using emplace_back_each_defined [OF d assms(1)] l static_vector_default_defined [of N] by simp
  show ?thesis
  proof (cases r1)
    case (Returns k)
    then show ?thesis using assms(2) l u by (simp add: static_vector_range_def)
  next
    case (Throws x)
    then obtain v2 where "clear v1 = Some v2" "v = v2"
      using assms(2) l by (auto simp: static_vector_range_def split: Option.bind_splits)
    then show ?thesis using clear_defined [OF v1] u by simp
  qed
qed

lemma static_vector_count_in_place_defined:
  assumes "Ctor_throws \<notin> set args" and "\<forall>j. dflt j \<noteq> Ctor_throws"
    and c: "static_vector_count_in_place N count args dflt = Some (r, v)"
  shows "\<not> undefined_behaviour v"
proof -
  let ?d = "static_vector_default N :: 'a static_vector"
  have d: "valid_sv ?d" by (rule static_vector_default_valid(1))
  obtain r1 v1 where l: "emplace_back_each args ?d = (r1, v1)" by (cases "emplace_back_each args ?d")
  have g: "grown ?d v1" using emplace_back_each_grown [OF grown_refl [OF d], of args] l by simp
  then have v1: "valid_sv v1" by (simp add: grown_def)
  have u: "\<not> undefined_behaviour v1"
    using emplace_back_each_defined [OF d assms(1)] l static_vector_default_defined [of N] by simp
  show ?thesis
  proof (cases r1)
    case (Throws x)
    then obtain v2 where "clear v1 = Some v2" "v = v2"
      using c l by (auto simp: static_vector_count_in_place_def split: Option.bind_splits)
    then show ?thesis using clear_defined [OF v1] u by simp
  next
    case (Returns k)
    show ?thesis
    proof (cases "int (length args) < count")
      case False
      then show ?thesis using c l Returns u by (simp add: static_vector_count_in_place_def)
    next
      case True
      then obtain r2 v2 where m: "emplace_back_many (int (nat count - length args)) dflt v1 = Some (r2, v2)"
        using c l Returns by (auto simp: static_vector_count_in_place_def split: Option.bind_splits)
      have u2: "\<not> undefined_behaviour v2" using emplace_back_many_defined [OF v1 assms(2) m] u by simp
      have v2: "valid_sv v2"
        using emplace_back_many_result [OF v1, of "int (nat count - length args)" dflt] m by auto
      show ?thesis
      proof (cases r2)
        case (Returns w)
        then show ?thesis using c l \<open>r1 = Returns k\<close> True m u2
          by (simp add: static_vector_count_in_place_def)
      next
        case (Throws x)
        then obtain v3 where "clear v2 = Some v3" "v = v3"
          using c l \<open>r1 = Returns k\<close> True m
          by (auto simp: static_vector_count_in_place_def split: Option.bind_splits)
        then show ?thesis using clear_defined [OF v2] u2 by simp
      qed
    qed
  qed
qed

lemma construct_sv_defined:
  assumes "no_throwing_constructor c" and "construct_sv N c = Some (r, v)"
  shows "\<not> undefined_behaviour v"
proof (cases c)
  case Default
  then show ?thesis using assms by (auto simp: static_vector_default_defined)
next
  case (Count n args)
  then obtain r1 where "emplace_back_many n args (static_vector_default N) = Some (r1, v)"
    using assms by (auto simp: forget_def static_vector_count_def)
  then show ?thesis
    using emplace_back_many_defined [OF static_vector_default_valid(1), of args n N r1 v] assms(1) Count
    by (simp add: static_vector_default_defined)
next
  case (Count_init n init)
  then obtain r1 where "emplace_back_many n init (static_vector_default N) = Some (r1, v)"
    using assms by (auto simp: forget_def static_vector_count_init_def)
  then show ?thesis
    using emplace_back_many_defined [OF static_vector_default_valid(1), of init n N r1 v] assms(1) Count_init
    by (simp add: static_vector_default_defined)
next
  case (Range rng)
  then show ?thesis using assms static_vector_range_defined [of rng N] by (auto simp: forget_def)
next
  case (Count_in_place n args dflt)
  then show ?thesis using assms static_vector_count_in_place_defined [of args dflt N n]
    by (auto simp: forget_def)
qed

lemma static_vector_range_overflow:
  assumes "Ctor_throws \<notin> set rng" and "N < length rng"
  shows "\<exists>v. static_vector_range N rng = Some (Throws Logic_error, v) \<and> m_size v = 0
           \<and> length (m_storage v) = N"
proof -
  let ?d = "static_vector_default N :: 'a static_vector"
  have d: "valid_sv ?d" by (rule static_vector_default_valid(1))
  have "fst (emplace_back_each rng ?d) = Throws Logic_error"
    using emplace_back_each_overflow [OF d assms(1)] assms(2) by (simp add: static_vector_default_valid)
  then obtain v1 where l: "emplace_back_each rng ?d = (Throws Logic_error, v1)"
    by (cases "emplace_back_each rng ?d") simp
  have g: "grown ?d v1" using emplace_back_each_grown [OF grown_refl [OF d], of rng] l by simp
  show ?thesis using clear_grown [OF g] l by (auto simp: static_vector_range_def)
qed

lemma static_vector_count_in_place_overflow:
  assumes a: "Ctor_throws \<notin> set args" and b: "\<forall>j. dflt j \<noteq> Ctor_throws"
    and n: "int N < max count (int (length args))"
  shows "\<exists>v. static_vector_count_in_place N count args dflt = Some (Throws Logic_error, v)
           \<and> m_size v = 0 \<and> length (m_storage v) = N"
proof -
  let ?d = "static_vector_default N :: 'a static_vector"
  have d: "valid_sv ?d" by (rule static_vector_default_valid(1))
  obtain r1 v1 where l: "emplace_back_each args ?d = (r1, v1)" by (cases "emplace_back_each args ?d")
  have g: "grown ?d v1" using emplace_back_each_grown [OF grown_refl [OF d], of args] l by simp
  then have v1: "valid_sv v1" and len1: "length (m_storage v1) = N"
    by (simp_all add: grown_def static_vector_default_valid)
  show ?thesis
  proof (cases "N < length args")
    case True
    have "fst (emplace_back_each args ?d) = Throws Logic_error"
      using emplace_back_each_overflow [OF d a] True by (simp add: static_vector_default_valid)
    then have "r1 = Throws Logic_error" using l by simp
    then show ?thesis using clear_grown [OF g] l by (auto simp: static_vector_count_in_place_def)
  next
    case False
    then have fits: "m_size ?d + length args \<le> length (m_storage ?d)"
      by (simp add: static_vector_default_valid)
    have r1: "r1 = Returns ()" using emplace_back_each_fits [OF d a fits] l by simp
    have s1: "m_size v1 = length args"
      using emplace_back_each_returns [of args ?d "()"] l r1 by (simp add: static_vector_default_valid)
    have lt: "int (length args) < count" using False n by simp
    have "int (length (m_storage v1)) < int (m_size v1) + int (nat count - length args)"
      using len1 s1 n False lt by simp
    then obtain v2 where m: "emplace_back_many (int (nat count - length args)) dflt v1 = Some (Throws Logic_error, v2)"
      using emplace_back_many_overflow [OF v1 b] by blast
    have "valid_sv v2 \<and> length (m_storage v2) = length (m_storage v1)"
      using emplace_back_many_result [OF v1, of "int (nat count - length args)" dflt] m by auto
    then have "grown ?d v2" using len1 by (simp add: grown_def static_vector_default_valid)
    then show ?thesis using clear_grown [of N v2] l r1 lt m
      by (auto simp: static_vector_count_in_place_def)
  qed
qed

lemma construct_sv_overflow:
  assumes "no_throwing_constructor c" and "int N < constructed_size c"
  shows "\<exists>v. construct_sv N c = Some (Some Logic_error, v) \<and> m_size v = 0
           \<and> length (m_storage v) = N"
proof (cases c)
  case Default
  then show ?thesis using assms by simp
next
  case (Count n args)
  then have "int (length (m_storage (static_vector_default N :: 'a static_vector)))
      < int (m_size (static_vector_default N :: 'a static_vector)) + n"
    using assms(2) by (simp add: static_vector_default_valid)
  then obtain v where e: "emplace_back_many n args (static_vector_default N) = Some (Throws Logic_error, v)"
      and "m_size v = m_size (static_vector_default N :: 'a static_vector)"
    using emplace_back_many_overflow [OF static_vector_default_valid(1), of args N n] assms(1) Count
    by auto
  moreover have "length (m_storage v) = N"
    using emplace_back_many_result [OF static_vector_default_valid(1), of n args N] e
    by (auto simp: static_vector_default_valid)
  ultimately show ?thesis using Count
    by (simp add: static_vector_count_def forget_def static_vector_default_valid)
next
  case (Count_init n init)
  then have "int (length (m_storage (static_vector_default N :: 'a static_vector)))
      < int (m_size (static_vector_default N :: 'a static_vector)) + n"
    using assms(2) by (simp add: static_vector_default_valid)
  then obtain v where e: "emplace_back_many n init (static_vector_default N) = Some (Throws Logic_error, v)"
      and "m_size v = m_size (static_vector_default N :: 'a static_vector)"
    using emplace_back_many_overflow [OF static_vector_default_valid(1), of init N n] assms(1) Count_init
    by auto
  moreover have "length (m_storage v) = N"
    using emplace_back_many_result [OF static_vector_default_valid(1), of n init N] e
    by (auto simp: static_vector_default_valid)
  ultimately show ?thesis using Count_init
    by (simp add: static_vector_count_init_def forget_def static_vector_default_valid)
next
  case (Range rng)
  then show ?thesis using assms static_vector_range_overflow [of rng N] by (auto simp: forget_def)
next
  case (Count_in_place n args dflt)
  then show ?thesis using assms static_vector_count_in_place_overflow [of args dflt N n]
    by (auto simp: forget_def)
qed

lemma apply_op_overflow:
  assumes v: "valid_sv v" and pre: "op_pre v op" and nt: "no_throwing_construction op"
    and big: "int (capacity v) < needed_size v op"
  shows "\<exists>v'. apply_op mf op v = Some (Some Logic_error, v') \<and> m_size v' = m_size v"
proof -
  have le: "m_size v \<le> length (m_storage v)" using valid_size_le [OF v] .
  show ?thesis
  proof (cases op)
    case (Emplace_back c)
    then have "full v" using big le by (simp add: full_def capacity_def size_sv_def max_size_def)
    then show ?thesis using Emplace_back by (simp add: emplace_back_full forget_def)
  next
    case (Push_back c)
    then have "full v" using big le by (simp add: full_def capacity_def size_sv_def max_size_def)
    then show ?thesis using Push_back by (simp add: emplace_back_full forget_def push_back_def)
  next
    case (Insert pos c)
    then have "full v" using big le by (simp add: full_def capacity_def size_sv_def max_size_def)
    then show ?thesis using Insert by (simp add: emplace_back_full forget_def insert_sv_def)
  next
    case (Resize n args)
    then have "\<not> n \<le> int (size_sv v)" and "int (length (m_storage v)) < int (m_size v) + n"
      using big le by (simp_all add: capacity_def size_sv_def)
    then show ?thesis
      using Resize nt emplace_back_many_overflow [OF v, of args n]
      by (auto simp: resize_def forget_def)
  next
    case (Resize_init n init)
    then have gt: "\<not> n \<le> int (size_sv v)" using big le by (simp add: capacity_def size_sv_def)
    then have "int (length (m_storage v)) < int (m_size v) + int (nat n - size_sv v)"
      using Resize_init big le by (simp add: capacity_def size_sv_def)
    then show ?thesis
      using Resize_init nt gt emplace_back_many_overflow [OF v, of init "int (nat n - size_sv v)"]
      by (auto simp: resize_init_def forget_def)
  next
    case (Insert_many pos n init)
    then have "int (length (m_storage v)) < int (m_size v) + n"
      using big by (simp add: capacity_def size_sv_def)
    then show ?thesis
      using Insert_many nt emplace_back_many_overflow [OF v, of init n]
      by (auto simp: insert_many_def forget_def)
  next
    case (Insert_range pos rng)
    then have "length (m_storage v) < m_size v + length rng"
      using big by (simp add: capacity_def size_sv_def)
    then show ?thesis
      using Insert_range nt emplace_back_range_overflow [OF v, of rng]
      by (auto simp: insert_range_def forget_def)
  next
    case (Emplace_back_many n args)
    then have "int (length (m_storage v)) < int (m_size v) + n"
      using big by (simp add: capacity_def size_sv_def)
    then show ?thesis
      using Emplace_back_many nt emplace_back_many_overflow [OF v, of args n]
      by (auto simp: forget_def)
  next
    case (Emplace_back_range rng)
    then have "length (m_storage v) < m_size v + length rng"
      using big by (simp add: capacity_def size_sv_def)
    then show ?thesis
      using Emplace_back_range nt emplace_back_range_overflow [OF v, of rng]
      by (auto simp: forget_def)
  qed (use big le pre in \<open>auto simp: capacity_def size_sv_def\<close>)
qed

section \<open>The claims\<close>

text \<open>
  C1. The claim: \<^verbatim>\<open>resize (n)\<close> with \<open>size () < n\<close> constructs \<open>n - size ()\<close> elements, so
  that the final size is \<open>n\<close>, and throws only when \<open>n\<close> exceeds the capacity. The
  one-argument form calls \<^verbatim>\<open>emplace_back_many (count)\<close>, not
  \<^verbatim>\<open>emplace_back_many (count - size ())\<close> as the two-argument form does. On \<open>{1, 2}\<close>
  with capacity 10, \<^verbatim>\<open>resize (5)\<close> constructs five elements and ends with size 7, where
  \<^verbatim>\<open>resize (5, 0)\<close> ends with size 5; on \<open>{1, 2}\<close> with capacity 5, \<^verbatim>\<open>resize (4)\<close>
  throws \<^verbatim>\<open>std::logic_error\<close> (and rolls back to size 2) although 4 is within the
  capacity. In general a one-argument \<^verbatim>\<open>resize\<close> that grows and returns ends with
  \<open>size () + n\<close> elements (\<open>resize_returns_size\<close>), the two-argument one with \<open>n\<close>
  (\<open>resize_init_returns_size\<close>).
\<close>

theorem resize_count_appends_count_elements:
  "resize 5 (\<lambda>i. Value (0::int))
     \<lparr>m_size = 2,
      m_storage = [Live 1, Live 2, Uninit, Uninit, Uninit, Uninit, Uninit, Uninit, Uninit, Uninit],
      slot_calls = [],
      undefined_behaviour = False\<rparr>
   = Some (Returns (),
       \<lparr>m_size = 7,
        m_storage = [Live 1, Live 2, Live 0, Live 0, Live 0, Live 0, Live 0, Uninit, Uninit, Uninit],
        slot_calls = [Construct_call 2 False, Construct_call 3 False, Construct_call 4 False,
                      Construct_call 5 False, Construct_call 6 False],
      undefined_behaviour = False\<rparr>)
   \<and> map_option (\<lambda>(r, v). (r, m_size v))
        (resize_init 5 (\<lambda>i. Value (0::int))
          \<lparr>m_size = 2,
           m_storage = [Live 1, Live 2, Uninit, Uninit, Uninit, Uninit, Uninit, Uninit, Uninit, Uninit],
           slot_calls = [],
      undefined_behaviour = False\<rparr>)
      = Some (Returns (), 5)
   \<and> map_option (\<lambda>(r, v). (r, m_size v, m_storage v))
        (resize 4 (\<lambda>i. Value (0::int))
          \<lparr>m_size = 2, m_storage = [Live 1, Live 2, Uninit, Uninit, Uninit], slot_calls = [],
      undefined_behaviour = False\<rparr>)
      = Some (Throws Logic_error, 2, [Live 1, Live 2, Uninit, Uninit, Uninit])"
  by (simp add: resize_def resize_init_def emplace_back_many_def size_sv_def emplace_back_loop.simps
      emplace_back_def construct_slot_def full_def max_size_def Let_def
      shrink_to_nonneg pop_back_def destroy_slot_def empty_sv_def eval_nat_numeral)

text \<open>
  C2. The claim: for every integral argument, negative ones included, \<^verbatim>\<open>shrink_to\<close> and
  \<^verbatim>\<open>shrink_by\<close> terminate. \<^verbatim>\<open>shrink_by\<close> does (it is a total function above, and
  \<open>shrink_by_size\<close> gives the size the claim states), and so does \<^verbatim>\<open>shrink_to\<close> for a
  count that is not negative (\<open>shrink_to_nonneg_size\<close>). For every negative count and
  every container, \<^verbatim>\<open>shrink_to\<close> never returns: once the container is empty,
  \<^verbatim>\<open>pop_back\<close> does nothing and \<^verbatim>\<open>std::cmp_less (count, size ())\<close> stays true.
\<close>

theorem shrink_to_negative_never_returns: "shrink_to (- 1 - int k) v = None"
  by (rule shrink_to_negative) simp

text \<open>
  C3. The claim: \<^verbatim>\<open>erase (pos)\<close> with \<open>pos = end ()\<close> is a no-op that returns
  \<^verbatim>\<open>end ()\<close>. The container is indeed unchanged, but no iterator is returned: the only
  \<^verbatim>\<open>return\<close> statement is inside \<^verbatim>\<open>if (pos != end ())\<close>. For a position before
  \<^verbatim>\<open>end ()\<close> the function does what the claim says (\<open>erase_before_end\<close>,
  \<open>erase_before_end_elements\<close>): it returns \<open>pos\<close>, the elements after \<open>pos\<close> have moved
  down by one, and the last slot has been destroyed.
\<close>

theorem erase_at_end_returns_nothing: "erase mf (end_sv v) v = (None, v)"
  by (simp add: erase_def)

text \<open>
  C4. The claim: \<^verbatim>\<open>emplace_back\<close> and \<^verbatim>\<open>push_back\<close> throw the full-container error
  exactly when \<^verbatim>\<open>full ()\<close>, and on that error, and likewise when the element's
  constructor throws, the size is not incremented and the call has no observable effect.
  The first half holds, and a call on a full container changes nothing. When the
  container is not full and the constructor throws, \<^verbatim>\<open>m_size\<close> has already been
  incremented and the \<^verbatim>\<open>catch\<close> block calls \<^verbatim>\<open>pop_back ()\<close>, which runs
  \<^verbatim>\<open>destroy ()\<close> on the slot that was never constructed: the behaviour of the call is
  undefined, so it is not without effect. That is the only way for a call of
  \<^verbatim>\<open>emplace_back\<close> to go wrong.
\<close>

theorem emplace_back_failed_construction_undefined:
  assumes "valid_sv v" and "\<not> undefined_behaviour v"
  shows "(fst (emplace_back c v) = Throws Logic_error \<longleftrightarrow> full v)
     \<and> (full v \<longleftrightarrow> size_sv v = capacity v)
     \<and> push_back c v = emplace_back c v
     \<and> (full v \<longrightarrow> emplace_back c v = (Throws Logic_error, v))
     \<and> (undefined_behaviour (snd (emplace_back c v)) \<longleftrightarrow> \<not> full v \<and> c = Ctor_throws)"
proof -
  have "fst (emplace_back c v) = Throws Logic_error \<longleftrightarrow> full v"
    by (cases c v rule: emplace_back_cases) (auto simp: emplace_back_full)
  moreover have "full v \<longleftrightarrow> size_sv v = capacity v"
    by (simp add: full_def max_size_def capacity_def)
  moreover have "push_back c v = emplace_back c v"
    by (simp add: push_back_def)
  moreover have "full v \<longrightarrow> emplace_back c v = (Throws Logic_error, v)"
    by (simp add: emplace_back_full)
  moreover have "undefined_behaviour (snd (emplace_back c v)) \<longleftrightarrow> \<not> full v \<and> c = Ctor_throws"
    using emplace_back_undefined [OF assms(1), of c] assms(2) by simp
  ultimately show ?thesis by blast
qed

theorem emplace_back_failed_construction_undefined_witness:
  "undefined_behaviour (snd (emplace_back Ctor_throws
      \<lparr>m_size = 1, m_storage = [Live ''a'', Uninit], slot_calls = [],
       undefined_behaviour = False\<rparr>))
   \<and> emplace_back (Value ''c'')
        \<lparr>m_size = 2, m_storage = [Live ''a'', Live ''b''], slot_calls = [],
         undefined_behaviour = False\<rparr>
      = (Throws Logic_error,
         \<lparr>m_size = 2, m_storage = [Live ''a'', Live ''b''], slot_calls = [],
          undefined_behaviour = False\<rparr>)"
proof -
  let ?v = "\<lparr>m_size = 1, m_storage = [Live ''a'', Uninit], slot_calls = [],
       undefined_behaviour = False\<rparr>"
  let ?w = "\<lparr>m_size = 2, m_storage = [Live ''a'', Live ''b''], slot_calls = [],
       undefined_behaviour = False\<rparr>"
  have v: "valid_sv ?v" "\<not> undefined_behaviour ?v" "\<not> full ?v"
    by (simp_all add: valid_sv_def full_def size_sv_def max_size_def)
  have w: "valid_sv ?w" "\<not> undefined_behaviour ?w" "full ?w"
    by (simp_all add: valid_sv_def full_def size_sv_def max_size_def eval_nat_numeral)
  show ?thesis
    using emplace_back_failed_construction_undefined [OF v(1,2), of Ctor_throws] v(3)
      emplace_back_failed_construction_undefined [OF w(1,2), of "Value ''c''"] w(3)
    by simp
qed

text \<open>
  C5. The claim: the container calls \<^verbatim>\<open>destroy ()\<close> only on a live slot, also on the
  path taken when the element's constructor throws inside \<^verbatim>\<open>emplace_back\<close>. On that
  path \<^verbatim>\<open>m_size\<close> has already been incremented, the \<^verbatim>\<open>catch\<close> block calls
  \<^verbatim>\<open>pop_back ()\<close>, and \<^verbatim>\<open>pop_back\<close> calls \<^verbatim>\<open>destroy ()\<close> on the slot whose construction
  has just failed: a slot that is not live.
\<close>

theorem failed_construction_destroys_dead_slot:
  assumes "valid_sv v" and "\<not> full v"
  shows "slot_calls (snd (emplace_back Ctor_throws v)) =
           slot_calls v @ [Construct_call (m_size v) False, Destroy_call (m_size v) False]
         \<and> \<not> call_ok (Destroy_call (m_size v) False)
         \<and> \<not> list_all call_ok (slot_calls (snd (emplace_back Ctor_throws v)))"
proof -
  have lt: "m_size v < length (m_storage v)"
    using valid_size_le [OF assms(1)] assms(2) by (simp add: full_def size_sv_def max_size_def)
  have dead: "m_storage v ! m_size v = Uninit"
    using valid_dead [OF assms(1) _ lt] by simp
  show ?thesis using dead by (simp add: emplace_back_throws [OF assms(2)])
qed

theorem failed_construction_destroys_dead_slot_witness:
  "slot_calls (snd (emplace_back Ctor_throws (static_vector_default 2 :: int static_vector)))
     = [Construct_call 0 False, Destroy_call 0 False]"
  using failed_construction_destroys_dead_slot [of "static_vector_default 2 :: int static_vector"]
  by (simp add: valid_sv_def static_vector_default_def full_def size_sv_def max_size_def)

text \<open>
  C6. In every state a caller can observe, after any constructor and any sequence of
  modifier calls with valid arguments, the size is at most the capacity, the capacity is
  the template parameter, and the live slots are those below the size. From such a
  state:
  \<^item> a call that throws, and whose behaviour is defined, leaves the size as it was at
    entry;
  \<^item> every operation that is asked for more elements than the capacity (\<open>needed_size\<close>),
    and none of whose element constructions throws first, throws
    \<^verbatim>\<open>std::logic_error\<close> with the size as at entry, and the state it leaves is again
    observable; this covers \<^verbatim>\<open>push_back\<close>, \<^verbatim>\<open>emplace_back\<close>, the three forms of
    \<^verbatim>\<open>insert\<close>, both forms of \<^verbatim>\<open>resize\<close>, \<^verbatim>\<open>emplace_back_many\<close> and
    \<^verbatim>\<open>emplace_back_range\<close>;
  \<^item> the single element modifiers on a full container throw \<^verbatim>\<open>std::logic_error\<close> and
    change nothing, whatever the element's constructor would have done;
  \<^item> every call whose element constructions succeed comes back in an observable state,
    except \<^verbatim>\<open>shrink_to\<close> and \<^verbatim>\<open>resize\<close> with a negative count, which never return, and
    \<^verbatim>\<open>erase (end ())\<close>, which has no return statement to reach;
  \<^item> a constructor asked for more elements than the capacity throws
    \<^verbatim>\<open>std::logic_error\<close> and leaves an empty container, and so does every
    constructor that throws and whose behaviour is defined.

  A call in which an element's constructor throws has undefined behaviour and leads to
  no observable state. The states between the \<^verbatim>\<open>emplace_back\<close> and
  \<^verbatim>\<open>pop_back\<close> calls of a bulk operation are reachable by those calls.
\<close>

theorem size_never_exceeds_capacity:
  assumes "reachable mf N v"
  shows "size_sv v \<le> capacity v \<and> capacity v = N \<and> valid_sv v \<and> \<not> undefined_behaviour v
     \<and> (\<forall>op r v'. op_pre v op \<and> apply_op mf op v = Some (r, v') \<and> \<not> undefined_behaviour v'
            \<and> r \<noteq> None \<longrightarrow> size_sv v' = size_sv v)
     \<and> (\<forall>op. op_pre v op \<and> no_throwing_construction op \<and> int (capacity v) < needed_size v op
            \<longrightarrow> (\<exists>v'. apply_op mf op v = Some (Some Logic_error, v')
                      \<and> size_sv v' = size_sv v \<and> reachable mf N v'))
     \<and> (\<forall>c. full v \<longrightarrow>
            apply_op mf (Emplace_back c) v = Some (Some Logic_error, v)
          \<and> apply_op mf (Push_back c) v = Some (Some Logic_error, v)
          \<and> (\<forall>pos. apply_op mf (Insert pos c) v = Some (Some Logic_error, v)))
     \<and> (\<forall>op. op_pre v op \<and> no_throwing_construction op \<and> \<not> negative_target op
            \<and> op \<noteq> Erase (end_sv v)
            \<longrightarrow> (\<exists>r v'. apply_op mf op v = Some (r, v') \<and> reachable mf N v'))
     \<and> (\<forall>c :: 'a constructor_call. no_throwing_constructor c \<and> int N < constructed_size c
            \<longrightarrow> (\<exists>v0. construct_sv N c = Some (Some Logic_error, v0)
                      \<and> size_sv v0 = 0 \<and> capacity v0 = N \<and> reachable mf N v0))
     \<and> (\<forall>c e. \<forall>v0 :: 'a static_vector.
            construct_sv N c = Some (Some e, v0) \<and> \<not> undefined_behaviour v0
            \<longrightarrow> size_sv v0 = 0 \<and> capacity v0 = N)"
proof -
  have v: "valid_sv v" and len: "length (m_storage v) = N" and u: "\<not> undefined_behaviour v"
    using reachable_valid [OF assms] by simp_all
  have 1: "size_sv v \<le> capacity v" "capacity v = N"
    using valid_size_le [OF v] len by (simp_all add: size_sv_def capacity_def)
  have 2: "size_sv v' = size_sv v"
    if "op_pre v op \<and> apply_op mf op v = Some (r, v') \<and> \<not> undefined_behaviour v' \<and> r \<noteq> None"
    for op r v'
    using apply_op_kept [OF v, of op mf r v'] that by (simp add: size_sv_def)
  have 3: "\<exists>v'. apply_op mf op v = Some (Some Logic_error, v') \<and> size_sv v' = size_sv v
      \<and> reachable mf N v'"
    if h: "op_pre v op \<and> no_throwing_construction op \<and> int (capacity v) < needed_size v op" for op
  proof -
    obtain v' where a: "apply_op mf op v = Some (Some Logic_error, v')" and s: "m_size v' = m_size v"
      using apply_op_overflow [OF v, of op mf] h by blast
    have "op \<noteq> Erase (end_sv v)" using h 1 by (auto simp: size_sv_def)
    then have "\<not> undefined_behaviour v'" using apply_op_defined [OF v _ _ _ a] h u by simp
    then have "reachable mf N v'" using reachable.modified [OF assms _ a] h by simp
    then show ?thesis using a s by (auto simp: size_sv_def)
  qed
  have 4: "apply_op mf (Emplace_back c) v = Some (Some Logic_error, v)
      \<and> apply_op mf (Push_back c) v = Some (Some Logic_error, v)
      \<and> (\<forall>pos. apply_op mf (Insert pos c) v = Some (Some Logic_error, v))" if "full v" for c
    using that by (simp add: emplace_back_full forget_def push_back_def insert_sv_def)
  have 5: "\<exists>r v'. apply_op mf op v = Some (r, v') \<and> reachable mf N v'"
    if h: "op_pre v op \<and> no_throwing_construction op \<and> \<not> negative_target op
      \<and> op \<noteq> Erase (end_sv v)" for op
  proof -
    obtain r v' where a: "apply_op mf op v = Some (r, v')"
      using apply_op_returns [OF v, of op mf] h by blast
    have "\<not> undefined_behaviour v'" using apply_op_defined [OF v _ _ _ a] h u by simp
    then have "reachable mf N v'" using reachable.modified [OF assms _ a] h by simp
    then show ?thesis using a by blast
  qed
  have 6: "\<exists>v0. construct_sv N c = Some (Some Logic_error, v0) \<and> size_sv v0 = 0
      \<and> capacity v0 = N \<and> reachable mf N v0"
    if h: "no_throwing_constructor c \<and> int N < constructed_size c" for c :: "'a constructor_call"
  proof -
    obtain v0 where a: "construct_sv N c = Some (Some Logic_error, v0)" and s: "m_size v0 = 0"
      and l: "length (m_storage v0) = N"
      using construct_sv_overflow [of c N] h by blast
    have "\<not> undefined_behaviour v0" using construct_sv_defined [OF _ a] h by simp
    then have "reachable mf N v0" using reachable.constructed [OF a] by simp
    then show ?thesis using a s l by (auto simp: size_sv_def capacity_def)
  qed
  have 7: "size_sv v0 = 0 \<and> capacity v0 = N"
    if "construct_sv N c = Some (Some e, v0) \<and> \<not> undefined_behaviour v0"
    for c e and v0 :: "'a static_vector"
  proof -
    have "construct_sv N c = Some (Some e, v0)" using that by simp
    from construct_sv_kept [OF this] show ?thesis by (simp add: size_sv_def capacity_def)
  qed
  show ?thesis using 1 v u 2 3 4 5 6 7 by blast
qed

theorem size_never_exceeds_capacity_witness:
  "reachable (\<lambda>x. x) 2
     \<lparr>m_size = 2, m_storage = [Live (1::int), Live 2],
      slot_calls = [Construct_call 0 False, Construct_call 1 False],
      undefined_behaviour = False\<rparr>
   \<and> size_sv \<lparr>m_size = 2, m_storage = [Live (1::int), Live 2],
      slot_calls = [Construct_call 0 False, Construct_call 1 False],
      undefined_behaviour = False\<rparr> \<le> 2
   \<and> apply_op (\<lambda>x. x) (Emplace_back (Value 3))
        \<lparr>m_size = 2, m_storage = [Live (1::int), Live 2],
         slot_calls = [Construct_call 0 False, Construct_call 1 False],
         undefined_behaviour = False\<rparr>
      = Some (Some Logic_error,
          \<lparr>m_size = 2, m_storage = [Live 1, Live 2],
           slot_calls = [Construct_call 0 False, Construct_call 1 False],
           undefined_behaviour = False\<rparr>)
   \<and> (\<exists>v'. apply_op (\<lambda>x. x) (Insert_many \<lparr>m_ptr = 1\<rparr> 1 (\<lambda>i. Value 0))
        \<lparr>m_size = 2, m_storage = [Live (1::int), Live 2],
         slot_calls = [Construct_call 0 False, Construct_call 1 False],
         undefined_behaviour = False\<rparr>
      = Some (Some Logic_error, v') \<and> size_sv v' = 2)
   \<and> (\<exists>v'. apply_op (\<lambda>x. x) (Resize 3 (\<lambda>i. Value 0))
        \<lparr>m_size = 2, m_storage = [Live (1::int), Live 2],
         slot_calls = [Construct_call 0 False, Construct_call 1 False],
         undefined_behaviour = False\<rparr>
      = Some (Some Logic_error, v') \<and> size_sv v' = 2)
   \<and> (\<exists>v0 :: int static_vector.
        construct_sv 2 (Count 3 (\<lambda>i. Value 0)) = Some (Some Logic_error, v0) \<and> size_sv v0 = 0)"
proof -
  let ?v = "\<lparr>m_size = 2, m_storage = [Live (1::int), Live 2],
      slot_calls = [Construct_call 0 False, Construct_call 1 False],
      undefined_behaviour = False\<rparr>"
  have c: "construct_sv 2 (Range [Value 1, Value 2]) = Some (None, ?v)"
    by (simp add: static_vector_range_def static_vector_default_def forget_def emplace_back_def
        construct_slot_def full_def size_sv_def max_size_def Let_def eval_nat_numeral)
  have r: "reachable (\<lambda>x. x) 2 ?v"
    by (rule reachable.constructed [OF c]) simp
  note t = size_never_exceeds_capacity [OF r]
  have f: "full ?v" by (simp add: full_def size_sv_def max_size_def)
  have cap: "capacity ?v = 2" by (simp add: capacity_def)
  have i: "op_pre ?v (Insert_many \<lparr>m_ptr = 1\<rparr> 1 (\<lambda>i. Value 0))
      \<and> no_throwing_construction (Insert_many \<lparr>m_ptr = 1\<rparr> 1 (\<lambda>i. Value (0::int)))
      \<and> int (capacity ?v) < needed_size ?v (Insert_many \<lparr>m_ptr = 1\<rparr> 1 (\<lambda>i. Value 0))"
    by (simp add: points_into_def size_sv_def capacity_def)
  have z: "op_pre ?v (Resize 3 (\<lambda>i. Value 0))
      \<and> no_throwing_construction (Resize 3 (\<lambda>i. Value (0::int)))
      \<and> int (capacity ?v) < needed_size ?v (Resize 3 (\<lambda>i. Value 0))"
    by (simp add: capacity_def)
  have k: "no_throwing_constructor (Count 3 (\<lambda>i. Value (0::int)))
      \<and> int 2 < constructed_size (Count 3 (\<lambda>i. Value (0::int)))"
    by simp
  have "size_sv ?v \<le> 2" using t cap by simp
  moreover have "apply_op (\<lambda>x. x) (Emplace_back (Value 3)) ?v = Some (Some Logic_error, ?v)"
    using t f by blast
  moreover have "\<exists>v'. apply_op (\<lambda>x. x) (Insert_many \<lparr>m_ptr = 1\<rparr> 1 (\<lambda>i. Value 0)) ?v
      = Some (Some Logic_error, v') \<and> size_sv v' = 2"
    using t i by (metis (no_types, lifting) size_sv_def select_convs(1))
  moreover have "\<exists>v'. apply_op (\<lambda>x. x) (Resize 3 (\<lambda>i. Value 0)) ?v
      = Some (Some Logic_error, v') \<and> size_sv v' = 2"
    using t z by (metis (no_types, lifting) size_sv_def select_convs(1))
  moreover have "\<exists>v0 :: int static_vector.
      construct_sv 2 (Count 3 (\<lambda>i. Value 0)) = Some (Some Logic_error, v0) \<and> size_sv v0 = 0"
    using t k by blast
  ultimately show ?thesis using r by blast
qed

text \<open>
  C7. In a container that is not full, inserting a value at a position of
  \<open>[begin, end]\<close> and then erasing at the same position gives back the size and every
  slot of the original container, so the result compares equal to it; both calls return
  the position. This holds whatever state \<open>mf\<close> a moved-from element is left in.
\<close>

theorem insert_then_erase_restores:
  assumes v: "valid_sv v" and nf: "\<not> full v" and pos: "points_into v pos"
  shows "\<exists>v1 v2. insert_sv pos (Value x) v = (Returns pos, v1)
           \<and> erase mf pos v1 = (Some pos, v2)
           \<and> m_size v2 = m_size v
           \<and> m_storage v2 = m_storage v
           \<and> operator_eq v2 v"
proof -
  let ?p = "nat (m_ptr pos)"
  let ?n = "m_size v"
  let ?xs = "m_storage v"
  have p0: "0 \<le> m_ptr pos" and pn: "?p \<le> ?n"
    using pos by (auto simp: points_into_def size_sv_def)
  have n_lt: "?n < length ?xs"
    using valid_size_le [OF v] nf by (simp add: full_def size_sv_def max_size_def)
  have dead: "?xs ! ?n = Uninit" using valid_dead [OF v _ n_lt] by simp
  let ?ys = "?xs[?n := Live x]"
  let ?zs = "ranges_rotate ?p ?n (Suc ?n) ?ys"
  define v1 where "v1 = snd (insert_sv pos (Value x) v)"
  have ins: "insert_sv pos (Value x) v = (Returns pos, v1)"
    using nf p0 by (simp add: v1_def insert_sv_def emplace_back_value index_of_simps)
  have v1_size: "m_size v1 = Suc ?n" and v1_storage: "m_storage v1 = ?zs"
    using nf p0 by (simp_all add: v1_def insert_sv_def emplace_back_value index_of_simps)
  have zlen: "length ?zs = length ?xs"
    using pn n_lt by (simp add: ranges_rotate_length)
  have rot: "?zs ! j = (if j < ?p then ?ys ! j else if j = ?p then ?ys ! ?n
        else if j \<le> ?n then ?ys ! (j - 1) else ?ys ! j)" if "j < length ?xs" for j
    using ranges_rotate_last_nth [OF pn, of ?ys j] n_lt that by simp
  have live: "is_live (?xs ! j) \<longleftrightarrow> j < ?n" if "j < length ?xs" for j
    using v that by (simp add: valid_sv_iff)
  have v1: "valid_sv v1"
  proof -
    have "is_live (?zs ! i) \<longleftrightarrow> i < Suc ?n" if "i < length ?xs" for i
      using rot [OF that] live that pn n_lt by (auto simp: nth_list_update)
    then show ?thesis using n_lt zlen by (simp add: valid_sv_iff v1_size v1_storage)
  qed
  have p1: "m_ptr pos < int (m_size v1)" using pn p0 by (simp add: v1_size)
  note e = erase_before_end [OF v1 p0 p1, of mf]
  define v2 where "v2 = snd (erase mf pos v1)"
  have er: "erase mf pos v1 = (Some pos, v2)"
    using e(1) by (cases "erase mf pos v1") (simp add: v2_def)
  have sz: "m_size v2 = ?n" using e(2) by (simp add: v2_def v1_size)
  have st2: "m_storage v2 = (ranges_move mf (Suc ?p) (Suc ?n) ?p ?zs)[?n := Uninit]"
    using e(3) by (simp add: v2_def v1_size v1_storage)
  have st: "m_storage v2 = ?xs"
  proof (rule nth_equalityI)
    show "length (m_storage v2) = length ?xs"
      by (simp add: st2 ranges_move_length zlen)
  next
    fix i assume "i < length (m_storage v2)"
    then have il: "i < length ?xs" by (simp add: st2 ranges_move_length zlen)
    have l: "Suc ?n \<le> length ?zs" and iz: "i < length ?zs" using n_lt il zlen by simp_all
    have mv: "ranges_move mf (Suc ?p) (Suc ?n) ?p ?zs ! i =
        (if ?p \<le> i \<and> Suc i < Suc ?n then ?zs ! Suc i
         else if Suc i = Suc ?n \<and> Suc ?p < Suc ?n then moved_from mf (?zs ! i)
         else ?zs ! i)"
      using ranges_move_shift_nth [OF l iz, of mf ?p] .
    show "m_storage v2 ! i = ?xs ! i"
    proof (cases "i = ?n")
      case True
      then show ?thesis using dead il by (simp add: st2 ranges_move_length zlen)
    next
      case False
      then have "m_storage v2 ! i = ranges_move mf (Suc ?p) (Suc ?n) ?p ?zs ! i"
        by (simp add: st2)
      also have "\<dots> = (if ?p \<le> i \<and> i < ?n then ?zs ! Suc i else ?zs ! i)"
        using mv False by auto
      also have "\<dots> = ?xs ! i"
        using False il n_lt pn rot [of i] rot [of "Suc i"] by (auto simp: nth_list_update)
      finally show ?thesis .
    qed
  qed
  have "operator_eq v2 v" by (simp add: operator_eq_def elements_def size_sv_def sz st)
  then show ?thesis using ins er sz st by blast
qed

theorem insert_then_erase_restores_witness:
  "\<exists>v1 v2. insert_sv \<lparr>m_ptr = 1\<rparr> (Value (9::int))
               \<lparr>m_size = 2, m_storage = [Live 1, Live 2, Uninit], slot_calls = [],
      undefined_behaviour = False\<rparr>
             = (Returns \<lparr>m_ptr = 1\<rparr>, v1)
           \<and> erase (\<lambda>x. x) \<lparr>m_ptr = 1\<rparr> v1 = (Some \<lparr>m_ptr = 1\<rparr>, v2)
           \<and> m_size v2 = 2
           \<and> m_storage v2 = [Live 1, Live 2, Uninit]"
proof -
  let ?v = "\<lparr>m_size = 2, m_storage = [Live (1::int), Live 2, Uninit], slot_calls = [],
      undefined_behaviour = False\<rparr>"
  have "valid_sv ?v" by (simp add: valid_sv_def eval_nat_numeral)
  moreover have "\<not> full ?v" by (simp add: full_def size_sv_def max_size_def)
  moreover have "points_into ?v \<lparr>m_ptr = 1\<rparr>" by (simp add: points_into_def size_sv_def)
  ultimately show ?thesis
    using insert_then_erase_restores [of ?v "\<lparr>m_ptr = 1\<rparr>" 9 "\<lambda>x. x"] by auto
qed

text \<open>
  C8. The claim: \<^verbatim>\<open>it--\<close> returns the iterator's value from before the decrement.
  \<^verbatim>\<open>operator-- (int)\<close> makes the copy and then returns \<^verbatim>\<open>*this\<close>, so the returned
  iterator is the decremented one; \<^verbatim>\<open>operator++ (int)\<close> returns the copy.
\<close>

theorem operator_post_dec_returns_decremented:
  "snd (operator_post_dec this) = this\<lparr>m_ptr := m_ptr this - 1\<rparr>
   \<and> m_ptr (snd (operator_post_dec this)) \<noteq> m_ptr this
   \<and> fst (operator_post_dec this) = this\<lparr>m_ptr := m_ptr this - 1\<rparr>
   \<and> operator_post_inc this = (this\<lparr>m_ptr := m_ptr this + 1\<rparr>, this)"
  by (simp add: operator_post_dec_def operator_pre_dec_def operator_post_inc_def
      operator_pre_inc_def Let_def)

text \<open>
  C9. \<^verbatim>\<open>at (i)\<close> and \<^verbatim>\<open>operator[] (i)\<close> throw \<^verbatim>\<open>std::out_of_range\<close> exactly when
  \<open>i < 0\<close> or \<open>size () \<le> i\<close>, and otherwise return the value of slot \<open>i\<close>, which in a
  container that satisfies the invariant is a live element; \<^verbatim>\<open>front\<close> is \<^verbatim>\<open>at (0)\<close>,
  \<^verbatim>\<open>back\<close> is \<^verbatim>\<open>at (size () - 1)\<close>, and both throw on an empty container (for
  \<^verbatim>\<open>back\<close> the unsigned \<^verbatim>\<open>0 - 1\<close> wraps to the largest \<^verbatim>\<open>std::size_t\<close>). The
  accessors return no new container state: they assign no member.
\<close>

theorem at_out_of_range_iff:
  "(at i v = Throws Out_of_range \<longleftrightarrow> i < 0 \<or> int (size_sv v) \<le> i)
   \<and> (0 \<le> i \<and> i < int (size_sv v) \<longrightarrow> at i v = Returns (value_of (m_storage v ! nat i)))
   \<and> (valid_sv v \<and> 0 \<le> i \<and> i < int (size_sv v) \<longrightarrow>
         (\<exists>x. m_storage v ! nat i = Live x \<and> at i v = Returns (Some x)))
   \<and> subscript i v = at i v
   \<and> front v = at 0 v
   \<and> (0 < size_sv v \<and> size_sv v < 2 ^ 64 \<longrightarrow> back_sv v = at (int (size_sv v) - 1) v)
   \<and> (size_sv v = 0 \<longrightarrow> front v = Throws Out_of_range \<and> back_sv v = Throws Out_of_range)"
proof (intro conjI impI)
  show "(at i v = Throws Out_of_range) = (i < 0 \<or> int (size_sv v) \<le> i)"
    by (simp add: at_def)
  show "at i v = Returns (value_of (m_storage v ! nat i))" if "0 \<le> i \<and> i < int (size_sv v)"
    using that by (simp add: at_def)
  show "\<exists>x. m_storage v ! nat i = Live x \<and> at i v = Returns (Some x)"
    if h: "valid_sv v \<and> 0 \<le> i \<and> i < int (size_sv v)"
  proof -
    have "nat i < m_size v"
      using h by (simp add: size_sv_def nat_less_iff)
    then have "is_live (m_storage v ! nat i)"
      using h valid_live [of v "nat i"] by simp
    then obtain x where "m_storage v ! nat i = Live x"
      by (cases "m_storage v ! nat i") auto
    then show ?thesis using h by (simp add: at_def)
  qed
  show "subscript i v = at i v" by (simp add: subscript_def)
  show "front v = at 0 v" by (simp add: front_def)
  show "back_sv v = at (int (size_sv v) - 1) v" if "0 < size_sv v \<and> size_sv v < 2 ^ 64"
  proof -
    have "size_sv v + 2 ^ 64 - 1 = (size_sv v - 1) + 2 ^ 64"
      using that by simp
    moreover have "size_sv v - 1 < 2 ^ 64"
      using that less_imp_diff_less [of "size_sv v" "2 ^ 64" 1] by blast
    ultimately have "(size_sv v + 2 ^ 64 - 1) mod 2 ^ 64 = size_sv v - 1"
      by (simp only: mod_add_self2 mod_less)
    then show ?thesis using that by (simp add: back_sv_def)
  qed
  show "front v = Throws Out_of_range" if "size_sv v = 0"
    using that by (simp add: front_def at_def)
  show "back_sv v = Throws Out_of_range" if "size_sv v = 0"
    using that by (simp add: back_sv_def at_def)
qed

theorem at_out_of_range_iff_witness:
  "at 1 \<lparr>m_size = 2, m_storage = [Live (10::int), Live 20, Uninit], slot_calls = [],
      undefined_behaviour = False\<rparr>
     = Returns (Some 20)
   \<and> back_sv \<lparr>m_size = 2, m_storage = [Live (10::int), Live 20, Uninit], slot_calls = [],
      undefined_behaviour = False\<rparr>
     = Returns (Some 20)
   \<and> at (- 1) \<lparr>m_size = 2, m_storage = [Live (10::int), Live 20, Uninit], slot_calls = [],
      undefined_behaviour = False\<rparr>
     = Throws Out_of_range
   \<and> front (static_vector_default 3 :: int static_vector) = Throws Out_of_range
   \<and> back_sv (static_vector_default 3 :: int static_vector) = Throws Out_of_range"
  using at_out_of_range_iff [of 1 "\<lparr>m_size = 2, m_storage = [Live (10::int), Live 20, Uninit], slot_calls = [],
      undefined_behaviour = False\<rparr>"]
    at_out_of_range_iff [of "- 1" "\<lparr>m_size = 2, m_storage = [Live (10::int), Live 20, Uninit], slot_calls = [],
      undefined_behaviour = False\<rparr>"]
    at_out_of_range_iff [of 0 "static_vector_default 3 :: int static_vector"]
  by (simp add: size_sv_def valid_sv_def static_vector_default_def)

text \<open>
  C10. For a negative count the loop of \<^verbatim>\<open>emplace_back_many\<close> is not entered
  (\<^verbatim>\<open>std::cmp_less (0, count)\<close> is false): the container, its history of slot calls
  included, is returned as it was, and the two counted constructors return the empty
  container without an exception.
\<close>

theorem negative_count_constructs_nothing:
  assumes "count < 0"
  shows "static_vector_count N count args = Some (Returns (), static_vector_default N)
     \<and> static_vector_count_init N count init = Some (Returns (), static_vector_default N)
     \<and> empty_sv (static_vector_default N :: 'a static_vector)
     \<and> emplace_back_many count args v = Some (Returns (), v)"
  using assms
  by (simp add: static_vector_count_def static_vector_count_init_def emplace_back_many_def
      emplace_back_loop_done empty_sv_def size_sv_def static_vector_default_def)

theorem negative_count_constructs_nothing_witness:
  "static_vector_count 5 (- 3) (\<lambda>i. Value (0::int)) = Some (Returns (), static_vector_default 5)
   \<and> emplace_back_many (- 3) (\<lambda>i. Value (7::int))
        \<lparr>m_size = 1, m_storage = [Live (4::int), Uninit], slot_calls = [],
      undefined_behaviour = False\<rparr>
      = Some (Returns (), \<lparr>m_size = 1, m_storage = [Live 4, Uninit], slot_calls = [],
      undefined_behaviour = False\<rparr>)"
proof -
  have neg: "(- 3 :: int) < 0" by simp
  show ?thesis
    using negative_count_constructs_nothing [OF neg, where N = 5 and args = "\<lambda>i. Value (0::int)"
        and init = "\<lambda>i. Value (0::int)" and v = "static_vector_default 5"]
      negative_count_constructs_nothing [OF neg, where N = 5 and args = "\<lambda>i. Value (7::int)"
        and init = "\<lambda>i. Value (7::int)"
        and v = "\<lparr>m_size = 1, m_storage = [Live (4::int), Uninit], slot_calls = [],
      undefined_behaviour = False\<rparr>"]
    by blast
qed

end
